theory Spec2Isabelle
  imports Main
begin

section \<open>JavaScript strings and numbers\<close>

text \<open>
  The baker of \<^verbatim>\<open>src/bake.ts\<close> works on JavaScript strings and on offsets into them.
  A string is modelled as a list of characters, one \<^typ>\<open>char\<close> per code unit, so that
  \<^verbatim>\<open>length\<close> and every offset count list positions. Offsets and lengths are JavaScript
  numbers holding integers; they are modelled as \<^typ>\<open>int\<close>, because the code subtracts
  them freely and only \<^verbatim>\<open>substring\<close> clamps them.
\<close>

abbreviation LF :: char where "LF \<equiv> CHR 0x0A"
abbreviation CR :: char where "CR \<equiv> CHR 0x0D"
abbreviation TAB :: char where "TAB \<equiv> CHR 0x09"
abbreviation SP :: char where "SP \<equiv> CHR 0x20"

text \<open>\<^verbatim>\<open>String.prototype.substring\<close>: both indices are clamped to \<open>[0, length]\<close> and
  swapped when the first exceeds the second.\<close>

definition clamp_index :: "string \<Rightarrow> int \<Rightarrow> nat" where
  "clamp_index s i = nat (min (max i 0) (int (length s)))"

definition substring :: "string \<Rightarrow> int \<Rightarrow> int \<Rightarrow> string" where
  "substring s a b =
     (let fa = clamp_index s a; fb = clamp_index s b;
          lo = min fa fb; hi = max fa fb
      in take (hi - lo) (drop lo s))"

text \<open>\<^verbatim>\<open>s.substring(a)\<close>: the end defaults to the length of the string.\<close>

definition substring_from :: "string \<Rightarrow> int \<Rightarrow> string" where
  "substring_from s a = substring s a (int (length s))"

section \<open>Regular expressions\<close>

text \<open>
  The five regular expression literals of the source are kept as syntax trees and run by
  one backtracking matcher. A matcher state is a position in the subject string and the
  spans captured so far. \<open>ends r s st\<close> lists, in the priority order of a backtracking
  engine, the states in which a match of \<open>r\<close> begun in state \<open>st\<close> can end.
  \<open>Chars cs\<close> is a single character or a character class, given by its members;
  \<open>Bol\<close> and \<open>Eol\<close> are \<^verbatim>\<open>^\<close> and \<^verbatim>\<open>$\<close> without the multiline flag; \<open>Star\<close> is
  greedy; \<open>Group k\<close> is the \<open>k\<close>-th capturing group.
\<close>

type_synonym captures = "nat \<rightharpoonup> nat \<times> nat"
type_synonym mstate = "nat \<times> captures"

datatype regex =
    Eps
  | Bol
  | Eol
  | Chars "char list"
  | Seq regex regex
  | Alt regex regex
  | Star regex
  | Group nat regex

text \<open>Greedy iteration: another round first, then stopping here. A round that consumes
  nothing is rejected, as ECMAScript does, so \<open>length s - i\<close> rounds are all that can
  happen from position \<open>i\<close>.\<close>

fun iter :: "nat \<Rightarrow> (mstate \<Rightarrow> mstate list) \<Rightarrow> mstate \<Rightarrow> mstate list" where
  "iter 0 f st = [st]"
| "iter (Suc n) f st =
     concat (map (iter n f) (filter (\<lambda>st'. fst st < fst st') (f st))) @ [st]"

lemma iter_cong [fundef_cong]:
  "n = m \<Longrightarrow> st = st' \<Longrightarrow> (\<And>x. f x = g x) \<Longrightarrow> iter n f st = iter m g st'"
proof -
  assume "n = m" "st = st'" and fg: "\<And>x. f x = g x"
  from fg have "f = g" by (rule ext)
  with \<open>n = m\<close> \<open>st = st'\<close> show ?thesis by simp
qed

fun ends :: "regex \<Rightarrow> string \<Rightarrow> mstate \<Rightarrow> mstate list" where
  "ends Eps s st = [st]"
| "ends Bol s (i, c) = (if i = 0 then [(i, c)] else [])"
| "ends Eol s (i, c) = (if i = length s then [(i, c)] else [])"
| "ends (Chars cs) s (i, c) = (if i < length s \<and> s ! i \<in> set cs then [(Suc i, c)] else [])"
| "ends (Seq a b) s st = concat (map (ends b s) (ends a s st))"
| "ends (Alt a b) s st = ends a s st @ ends b s st"
| "ends (Star a) s st = iter (length s - fst st) (ends a s) st"
| "ends (Group k a) s (i, c) = map (\<lambda>(j, c'). (j, c'(k \<mapsto> (i, j)))) (ends a s (i, c))"

text \<open>Derived forms: \<^verbatim>\<open>r+\<close>, \<^verbatim>\<open>r?\<close> and a literal string.\<close>

definition Plus :: "regex \<Rightarrow> regex" where
  "Plus r = Seq r (Star r)"

definition Opt :: "regex \<Rightarrow> regex" where
  "Opt r = Alt r Eps"

fun Lit :: "string \<Rightarrow> regex" where
  "Lit [] = Eps"
| "Lit (x # xs) = Seq (Chars [x]) (Lit xs)"

text \<open>
  The search loop of \<^verbatim>\<open>RegExp.prototype.exec\<close>: try the pattern at \<open>from\<close>, \<open>from + 1\<close>,
  ... up to the length of the string; the first position with a match wins, and there the
  first alternative of the backtracking order. The result holds the index of the match
  and its final state (end position, captures).
\<close>

definition regex_search :: "regex \<Rightarrow> string \<Rightarrow> nat \<Rightarrow> (nat \<times> mstate) option" where
  "regex_search r s from =
     (case List.find (\<lambda>p. ends r s (p, Map.empty) \<noteq> []) [from ..< Suc (length s)] of
        None \<Rightarrow> None
      | Some p \<Rightarrow> Some (p, hd (ends r s (p, Map.empty))))"

text \<open>\<^verbatim>\<open>re.test(s)\<close> and \<^verbatim>\<open>s.match(re)\<close> for a regular expression without the global
  flag: the search starts at 0.\<close>

definition regex_test :: "regex \<Rightarrow> string \<Rightarrow> bool" where
  "regex_test r s = (regex_search r s 0 \<noteq> None)"

definition string_match :: "regex \<Rightarrow> string \<Rightarrow> (nat \<times> mstate) option" where
  "string_match r s = regex_search r s 0"

text \<open>\<^verbatim>\<open>m[k]\<close>: the text of capturing group \<open>k\<close> of a match on \<open>s\<close>. (A group that took
  no part in the match reads as the empty string here; group 1 of \<open>listLineStartRE\<close> takes
  part in every match.)\<close>

definition group_text :: "string \<Rightarrow> nat \<times> mstate \<Rightarrow> nat \<Rightarrow> string" where
  "group_text s m k =
     (case snd (snd m) k of None \<Rightarrow> [] | Some (i, j) \<Rightarrow> take (j - i) (drop i s))"

text \<open>\<^verbatim>\<open>re.exec(s)\<close> for a regular expression with the global flag, whose \<^verbatim>\<open>lastIndex\<close>
  is \<open>li\<close>: the index of the match (or null) and the new \<^verbatim>\<open>lastIndex\<close>, which is the end
  of the match, or 0 after a failure.\<close>

definition exec_global :: "regex \<Rightarrow> string \<Rightarrow> nat \<Rightarrow> nat option \<times> nat" where
  "exec_global r s li =
     (case regex_search r s li of
        None \<Rightarrow> (None, 0)
      | Some (idx, st) \<Rightarrow> (Some idx, fst st))"

subsection \<open>The regular expressions of the source\<close>

definition digits :: "char list" where
  "digits = ''0123456789''"

text \<open>\<^verbatim>\<open>const lineStartRE = /(?:^|\n) *$/;\<close>\<close>

definition lineStartRE :: regex where
  "lineStartRE = Seq (Alt Bol (Chars [LF])) (Seq (Star (Chars [SP])) Eol)"

text \<open>\<^verbatim>\<open>const listLineStartRE = /(?:^|\n)([ \t]*)(?:[-*+]|[0-9]+[.)]) +$/;\<close>\<close>

definition listLineStartRE :: regex where
  "listLineStartRE =
     Seq (Alt Bol (Chars [LF]))
    (Seq (Group 1 (Star (Chars [SP, TAB])))
    (Seq (Alt (Chars ''-*+'') (Seq (Plus (Chars digits)) (Chars ''.)'')))
    (Seq (Plus (Chars [SP])) Eol)))"

text \<open>\<^verbatim>\<open>const lineEndRE = /^ *(?:\r?\n|$)/;\<close>\<close>

definition lineEndRE :: regex where
  "lineEndRE =
     Seq Bol (Seq (Star (Chars [SP])) (Alt (Seq (Opt (Chars [CR])) (Chars [LF])) Eol))"

text \<open>\<^verbatim>\<open>const hiddenStartRE = /%%hidden%%/g;\<close> and
  \<^verbatim>\<open>const hiddenEndRE = /%%\/hidden%%/g;\<close>\<close>

definition hiddenStartRE :: regex where
  "hiddenStartRE = Lit ''%%hidden%%''"

definition hiddenEndRE :: regex where
  "hiddenEndRE = Lit ''%%/hidden%%''"

text \<open>A literal consumes exactly its own characters.\<close>

lemma ends_Lit:
  "ends (Lit w) s (i, c) =
     (if take (length w) (drop i s) = w then [(i + length w, c)] else [])"
proof (induction w arbitrary: i)
  case Nil
  show ?case by simp
next
  case (Cons x w)
  show ?case
  proof (cases "i < length s")
    case True
    then have "drop i s = s ! i # drop (Suc i) s"
      by (simp add: Cons_nth_drop_Suc)
    then show ?thesis
      using True Cons.IH [of "Suc i"] by auto
  next
    case False
    then show ?thesis by simp
  qed
qed

lemma find_SomeD: "List.find P xs = Some x \<Longrightarrow> P x \<and> x \<in> set xs"
  by (induction xs) (auto split: if_splits)

lemma regex_search_Lit:
  assumes "regex_search (Lit w) s li = Some (p, st)"
  shows "li \<le> p" and "fst st = p + length w" and "take (length w) (drop p s) = w"
    and "p + length w \<le> length s"
proof -
  from assms obtain q where
    f: "List.find (\<lambda>p. ends (Lit w) s (p, Map.empty) \<noteq> []) [li ..< Suc (length s)] = Some q"
    and r: "p = q" "st = hd (ends (Lit w) s (q, Map.empty))"
    by (auto simp: regex_search_def split: option.splits)
  from find_SomeD [OF f] have ne: "ends (Lit w) s (q, Map.empty) \<noteq> []"
    and mem: "q \<in> set [li ..< Suc (length s)]"
    by blast+
  from ne have t: "take (length w) (drop q s) = w"
    by (simp add: ends_Lit split: if_splits)
  from mem r show "li \<le> p" by auto
  from ne r show "fst st = p + length w" by (simp add: ends_Lit split: if_splits)
  from t r show "take (length w) (drop p s) = w" by simp
  have "length (take (length w) (drop q s)) = length w" using t by simp
  then show "p + length w \<le> length s" using r mem by (auto simp: min_def split: if_splits)
qed

lemma hiddenStartRE_progress:
  "regex_search hiddenStartRE t li = Some (p, st) \<Longrightarrow> li < fst st \<and> fst st \<le> length t"
  using regex_search_Lit [of "''%%hidden%%''" t li p st] by (simp add: hiddenStartRE_def)

section \<open>The data of the baker\<close>

text \<open>A file of the vault (\<^verbatim>\<open>TFile\<close>), with the two fields the baker reads. The vault
  holds one object per file, and \<^verbatim>\<open>Set<TFile>\<close> compares objects by identity; the model
  compares the records.\<close>

record TFile =
  path :: string
  extension :: string

text \<open>A link or an embed as the metadata cache reports it (\<^verbatim>\<open>ReferenceCache\<close>):
  \<^verbatim>\<open>target.link\<close>, the optional \<^verbatim>\<open>target.displayText\<close>, and the offsets
  \<^verbatim>\<open>target.position.start.offset\<close> and \<^verbatim>\<open>target.position.end.offset\<close>.\<close>

record ReferenceCache =
  link :: string
  displayText :: "string option"
  position_start_offset :: int
  position_end_offset :: int

text \<open>The cache entry of a file (\<^verbatim>\<open>CachedMetadata\<close>): its optional lists of links and of
  embeds; \<open>sections\<close> stands for the headings, blocks and sections, which only
  \<^verbatim>\<open>resolveSubpath\<close> and \<^verbatim>\<open>extractSubpath\<close> read.\<close>

record 'x CachedMetadata =
  links :: "ReferenceCache list option"
  embeds :: "ReferenceCache list option"
  sections :: 'x

record BakeSettings =
  bakeHidden :: bool
  bakeLinks :: bool
  bakeEmbeds :: bool
  bakeInList :: bool
  convertFileLinks :: bool

text \<open>The services of \<^verbatim>\<open>app\<close> that the baker calls: \<^verbatim>\<open>vault.cachedRead\<close> (\<open>None\<close> when
  the promise is rejected), \<^verbatim>\<open>metadataCache.getFileCache\<close>,
  \<^verbatim>\<open>metadataCache.getFirstLinkpathDest\<close>, and \<^verbatim>\<open>vault.adapter.getFullPath\<close>, which is
  \<open>None\<close> on an adapter that has no such method.\<close>

record 'x App =
  cachedRead :: "TFile \<Rightarrow> string option"
  getFileCache :: "TFile \<Rightarrow> 'x CachedMetadata option"
  getFirstLinkpathDest :: "string \<Rightarrow> string \<Rightarrow> TFile option"
  getFullPath :: "(string \<Rightarrow> string) option"

text \<open>The functions that \<^verbatim>\<open>bake.ts\<close> imports and whose code is not part of it: from
  \<^verbatim>\<open>obsidian\<close>, \<^verbatim>\<open>parseLinktext\<close> (returning path and subpath), \<^verbatim>\<open>resolveSubpath\<close> and
  \<^verbatim>\<open>Platform.isWin\<close>; from \<^verbatim>\<open>./util\<close>, \<^verbatim>\<open>extractSubpath\<close>, \<^verbatim>\<open>sanitizeBakedContent\<close>,
  \<^verbatim>\<open>stripFirstBullet\<close> and \<^verbatim>\<open>applyIndent\<close>; and the built-in \<^verbatim>\<open>encodeURI\<close>. They are
  parameters of the model.\<close>

record ('x, 'r) Lib =
  parseLinktext :: "string \<Rightarrow> string \<times> string"
  resolveSubpath :: "'x CachedMetadata \<Rightarrow> string \<Rightarrow> 'r option"
  isWin :: bool
  extractSubpath :: "string \<Rightarrow> 'r \<Rightarrow> 'x CachedMetadata \<Rightarrow> string"
  sanitizeBakedContent :: "string \<Rightarrow> string"
  stripFirstBullet :: "string \<Rightarrow> string"
  applyIndent :: "string \<Rightarrow> string \<Rightarrow> string"
  encodeURI :: "string \<Rightarrow> string"

text \<open>A hidden region \<^verbatim>\<open>{ start: number; end: number }\<close>.\<close>

record region =
  region_start :: int
  region_end :: int

text \<open>A call of \<^verbatim>\<open>bake\<close> either runs out of fuel (\<open>None\<close>: the model's stand-in for a
  call that does not return), or is rejected with an error, or resolves with a value.\<close>

datatype error = ReadError

type_synonym 'a result = "(error + 'a) option"

section \<open>The hidden-region filter\<close>

text \<open>
  The \<^verbatim>\<open>while\<close> loop of lines 42 to 49. Its state is the \<^verbatim>\<open>lastIndex\<close> of
  \<open>hiddenStartRE\<close> and the regions pushed so far; \<open>hiddenEndRE\<close> has its \<^verbatim>\<open>lastIndex\<close>
  set before each use. The constants 10 and 12 are those of the source.
\<close>

function find_hidden_regions :: "string \<Rightarrow> nat \<Rightarrow> region list \<Rightarrow> region list" where
  "find_hidden_regions text li acc =
     (case exec_global hiddenStartRE text li of
        (None, _) \<Rightarrow> acc
      | (Some start, li') \<Rightarrow>
          (case exec_global hiddenEndRE text (start + 10) of
             (None, _) \<Rightarrow> find_hidden_regions text li' acc
           | (Some endIndex, _) \<Rightarrow>
               find_hidden_regions text li'
                 (acc @ [\<lparr>region_start = int start, region_end = int endIndex + 12\<rparr>])))"
  by pat_completeness auto
termination
  apply (relation "measure (\<lambda>(text, li, acc). Suc (length text) - li)")
    apply simp
   apply (auto simp: exec_global_def split: option.splits prod.splits dest!: hiddenStartRE_progress)
  done

declare find_hidden_regions.simps [simp del]

text \<open>The \<^verbatim>\<open>for\<close> loop of lines 52 to 55 cuts the regions out, the last one first.\<close>

definition remove_region :: "region \<Rightarrow> string \<Rightarrow> string" where
  "remove_region region text =
     substring text 0 (region_start region) @ substring_from text (region_end region)"

definition remove_hidden :: "region list \<Rightarrow> string \<Rightarrow> string" where
  "remove_hidden hiddenRegions text = foldr remove_region hiddenRegions text"

text \<open>Lines 35 to 56: with \<^verbatim>\<open>bakeHidden\<close> off the regions are found and cut out; with it on
  there are no regions and the text stays as read.\<close>

definition hidden_regions_of :: "BakeSettings \<Rightarrow> string \<Rightarrow> region list" where
  "hidden_regions_of settings text =
     (if \<not> bakeHidden settings then find_hidden_regions text 0 [] else [])"

definition filter_hidden :: "BakeSettings \<Rightarrow> string \<Rightarrow> string" where
  "filter_hidden settings text =
     (if \<not> bakeHidden settings then remove_hidden (hidden_regions_of settings text) text
      else text)"

section \<open>Offset remapping\<close>

text \<open>Lines 88 to 95: the loop over the regions that adds up \<^verbatim>\<open>region.end - region.start\<close>
  and leaves at the first region that does not start before the target.\<close>

fun hidden_offset :: "region list \<Rightarrow> int \<Rightarrow> int \<Rightarrow> int" where
  "hidden_offset [] adjustedStart offset = offset"
| "hidden_offset (region # regions) adjustedStart offset =
     (if region_start region < adjustedStart
      then hidden_offset regions adjustedStart (offset + (region_end region - region_start region))
      else offset)"

text \<open>Lines 84 to 97: \<^verbatim>\<open>adjustedStart\<close> and \<^verbatim>\<open>adjustedEnd\<close>.\<close>

definition adjusted :: "BakeSettings \<Rightarrow> region list \<Rightarrow> ReferenceCache \<Rightarrow> int \<times> int" where
  "adjusted settings hiddenRegions target =
     (let adjustedStart = position_start_offset target;
          adjustedEnd = position_end_offset target
      in if \<not> bakeHidden settings
         then (let offset = hidden_offset hiddenRegions adjustedStart 0
               in (adjustedStart - offset, adjustedEnd - offset))
         else (adjustedStart, adjustedEnd))"

text \<open>Lines 100 to 106: \<^verbatim>\<open>hiddenRegions.some(...)\<close> on the offsets of the cache.\<close>

definition within_hidden :: "region list \<Rightarrow> ReferenceCache \<Rightarrow> bool" where
  "within_hidden hiddenRegions target =
     list_ex (\<lambda>region. position_start_offset target \<ge> region_start region
                     \<and> position_end_offset target \<le> region_end region) hiddenRegions"

section \<open>The shape of a reference\<close>

text \<open>Lines 123 to 127: \<^verbatim>\<open>listMatch\<close> and \<^verbatim>\<open>isInline\<close>.\<close>

definition listMatch_of :: "BakeSettings \<Rightarrow> string \<Rightarrow> (nat \<times> mstate) option" where
  "listMatch_of settings beforeText =
     (if bakeInList settings then string_match listLineStartRE beforeText else None)"

definition isInline :: "BakeSettings \<Rightarrow> string \<Rightarrow> string \<Rightarrow> bool" where
  "isInline settings beforeText afterText =
     (\<not> (listMatch_of settings beforeText \<noteq> None \<or> regex_test lineStartRE beforeText)
      \<or> \<not> regex_test lineEndRE afterText)"

section \<open>The baker\<close>

text \<open>Lines 130 to 133: \<^verbatim>\<open>replaceTarget\<close> writes the new text and moves \<^verbatim>\<open>posOffset\<close>.\<close>

definition replaceTarget :: "string \<Rightarrow> string \<Rightarrow> int \<Rightarrow> int \<Rightarrow> string \<Rightarrow> string \<times> int" where
  "replaceTarget beforeText afterText prevLen posOffset replacement =
     (beforeText @ replacement @ afterText, posOffset + (int (length replacement) - prevLen))"

text \<open>\<^verbatim>\<open>target.displayText || path\<close>: an absent and an empty display text are both
  falsy.\<close>

definition text_of_target :: "ReferenceCache \<Rightarrow> string \<Rightarrow> string" where
  "text_of_target target path' =
     (case displayText target of
        None \<Rightarrow> path'
      | Some d \<Rightarrow> if d = [] then path' else d)"

text \<open>
  One round of the loop of lines 82 to 163, on the state \<open>(text, posOffset)\<close>. The
  recursive call of \<^verbatim>\<open>bake\<close> is the parameter \<open>recurse\<close>; a \<^verbatim>\<open>continue\<close> returns the state
  as it is at that point.
\<close>

definition process_target ::
  "(TFile \<Rightarrow> string option \<Rightarrow> TFile set \<Rightarrow> string result) \<Rightarrow> ('x, 'r) Lib \<Rightarrow> 'x App \<Rightarrow> TFile
     \<Rightarrow> BakeSettings \<Rightarrow> region list \<Rightarrow> TFile set \<Rightarrow> ReferenceCache
     \<Rightarrow> string \<times> int \<Rightarrow> (string \<times> int) result" where
  "process_target recurse lib app file settings hiddenRegions newAncestors target state =
     (let (text, posOffset) = state;
          (adjustedStart, adjustedEnd) = adjusted settings hiddenRegions target
      in if \<not> bakeHidden settings \<and> within_hidden hiddenRegions target then Some (Inr state)
         else
          (let startPos = adjustedStart + posOffset;
               endPos = adjustedEnd + posOffset;
               prevLen = endPos - startPos;
               beforeText = substring text 0 startPos;
               afterText = substring_from text endPos;
               (path', subpath') = parseLinktext lib (link target)
           in case getFirstLinkpathDest app path' (path file) of
                None \<Rightarrow> Some (Inr state)
              | Some linkedFile \<Rightarrow>
                 (let listMatch = listMatch_of settings beforeText;
                      isInline' = isInline settings beforeText afterText;
                      isMarkdownFile = (extension linkedFile = ''md'')
                  in if \<not> isMarkdownFile then
                       (if \<not> convertFileLinks settings then Some (Inr state)
                        else case getFullPath app of
                          None \<Rightarrow> Some (Inr state)
                        | Some getFullPath' \<Rightarrow>
                           (let fullPath = getFullPath' (path linkedFile);
                                protocol = (if isWin lib then ''file:///'' else ''file://'')
                            in Some (Inr (replaceTarget beforeText afterText prevLen posOffset
                                 (''![]('' @ protocol @ encodeURI lib fullPath @ '')'')))))
                     else if linkedFile \<in> newAncestors \<or> isInline' then
                       Some (Inr (replaceTarget beforeText afterText prevLen posOffset
                                    (text_of_target target path')))
                     else
                       (case recurse linkedFile (Some subpath') newAncestors of
                          None \<Rightarrow> None
                        | Some (Inl e) \<Rightarrow> Some (Inl e)
                        | Some (Inr r) \<Rightarrow>
                           (let baked = sanitizeBakedContent lib r
                            in Some (Inr (replaceTarget beforeText afterText prevLen posOffset
                                 (case listMatch of
                                    Some m \<Rightarrow> applyIndent lib (stripFirstBullet lib baked)
                                                (group_text beforeText m 1)
                                  | None \<Rightarrow> baked))))))))"

text \<open>The loop itself: the targets in order, each on the state the one before left; an
  error of a recursive call ends the loop.\<close>

fun process_targets ::
  "(TFile \<Rightarrow> string option \<Rightarrow> TFile set \<Rightarrow> string result) \<Rightarrow> ('x, 'r) Lib \<Rightarrow> 'x App \<Rightarrow> TFile
     \<Rightarrow> BakeSettings \<Rightarrow> region list \<Rightarrow> TFile set \<Rightarrow> ReferenceCache list
     \<Rightarrow> string \<times> int \<Rightarrow> (string \<times> int) result" where
  "process_targets recurse lib app file settings hiddenRegions newAncestors [] state =
     Some (Inr state)"
| "process_targets recurse lib app file settings hiddenRegions newAncestors (target # targets) state =
     (case process_target recurse lib app file settings hiddenRegions newAncestors target state of
        None \<Rightarrow> None
      | Some (Inl e) \<Rightarrow> Some (Inl e)
      | Some (Inr state') \<Rightarrow>
          process_targets recurse lib app file settings hiddenRegions newAncestors targets state')"

text \<open>Lines 67 to 74: the targets, sorted by start offset (the sort of an array is
  stable).\<close>

definition targets_of :: "BakeSettings \<Rightarrow> 'x CachedMetadata \<Rightarrow> ReferenceCache list" where
  "targets_of settings cache =
     (let links' = (if bakeLinks settings
                    then (case links cache of Some ls \<Rightarrow> ls | None \<Rightarrow> []) else []);
          embeds' = (if bakeEmbeds settings
                     then (case embeds cache of Some es \<Rightarrow> es | None \<Rightarrow> []) else [])
      in links' @ embeds')"

text \<open>The body of \<^verbatim>\<open>bake\<close> (lines 28 to 166), again with the recursive call as the
  parameter \<open>recurse\<close>.\<close>

definition bake_body ::
  "(TFile \<Rightarrow> string option \<Rightarrow> TFile set \<Rightarrow> string result) \<Rightarrow> ('x, 'r) Lib \<Rightarrow> 'x App \<Rightarrow> TFile
     \<Rightarrow> string option \<Rightarrow> TFile set \<Rightarrow> BakeSettings \<Rightarrow> string result" where
  "bake_body recurse lib app file subpath ancestors settings =
     (case cachedRead app file of
        None \<Rightarrow> Some (Inl ReadError)
      | Some text0 \<Rightarrow>
         (let cache = getFileCache app file;
              hiddenRegions = hidden_regions_of settings text0;
              text1 = filter_hidden settings text0
          in case cache of
               None \<Rightarrow> Some (Inr text1)
             | Some cache \<Rightarrow>
                (let resolvedSubpath =
                       (case subpath of
                          None \<Rightarrow> None
                        | Some sp \<Rightarrow> if sp = [] then None else resolveSubpath lib cache sp);
                     text2 = (case resolvedSubpath of
                                None \<Rightarrow> text1
                              | Some rs \<Rightarrow> extractSubpath lib text1 rs cache);
                     targets = targets_of settings cache
                 in if length targets = 0 then Some (Inr text2)
                    else
                     (let sorted_targets = sort_key position_start_offset targets;
                          newAncestors = insert file ancestors
                      in case process_targets recurse lib app file settings hiddenRegions
                                newAncestors sorted_targets (text2, 0) of
                           None \<Rightarrow> None
                         | Some (Inl e) \<Rightarrow> Some (Inl e)
                         | Some (Inr (text, posOffset)) \<Rightarrow> Some (Inr text)))))"

text \<open>\<^verbatim>\<open>bake\<close>, with fuel for the depth of the recursion: \<open>bake n\<close> allows calls nested
  \<open>n\<close> deep and is \<open>None\<close> where the source would go deeper.\<close>

fun bake ::
  "nat \<Rightarrow> ('x, 'r) Lib \<Rightarrow> 'x App \<Rightarrow> TFile \<Rightarrow> string option \<Rightarrow> TFile set \<Rightarrow> BakeSettings
     \<Rightarrow> string result" where
  "bake 0 lib app file subpath ancestors settings = None"
| "bake (Suc n) lib app file subpath ancestors settings =
     bake_body (\<lambda>f sp anc. bake n lib app f sp anc settings)
       lib app file subpath ancestors settings"

declare bake.simps(2) [simp del]

section \<open>The vocabulary of the specification\<close>

text \<open>The notions the specification words its rules with, as predicates on strings. They
  are what the claims are stated in; the code above does not use them.\<close>

text \<open>The string \<open>w\<close> stands in \<open>s\<close> at offset \<open>p\<close>.\<close>

definition occurs_at :: "string \<Rightarrow> string \<Rightarrow> nat \<Rightarrow> bool" where
  "occurs_at w s p = (take (length w) (drop p s) = w)"

text \<open>The first place at or behind \<open>li\<close> where \<open>w\<close> stands in \<open>s\<close> is \<open>p\<close>.\<close>

definition first_at :: "string \<Rightarrow> string \<Rightarrow> nat \<Rightarrow> nat \<Rightarrow> bool" where
  "first_at w s li p =
     (li \<le> p \<and> occurs_at w s p \<and> (\<forall>q. li \<le> q \<and> q < p \<longrightarrow> \<not> occurs_at w s q))"

text \<open>``The text before ends at a line start with only spaces'': after the start of the
  text or a newline there are only spaces.\<close>

definition ends_at_line_start :: "string \<Rightarrow> bool" where
  "ends_at_line_start s = (\<exists>pre n. s = pre @ replicate n SP \<and> (pre = [] \<or> last pre = LF))"

text \<open>A bullet (\<open>-\<close>, \<open>*\<close>, \<open>+\<close>) or a numbered marker (digits, then \<open>.\<close> or \<open>)\<close>).\<close>

definition is_list_marker :: "string \<Rightarrow> bool" where
  "is_list_marker m =
     (m = ''-'' \<or> m = ''*'' \<or> m = ''+''
      \<or> (\<exists>ds c. m = ds @ [c] \<and> ds \<noteq> [] \<and> set ds \<subseteq> set digits
                 \<and> (c = CHR ''.'' \<or> c = CHR '')'')))"

text \<open>A list-item start: at the start of the last line, an indent of spaces and tabs, a
  marker, and at least one space, with nothing behind.\<close>

definition list_item_parts :: "string \<Rightarrow> string \<Rightarrow> string \<Rightarrow> string \<Rightarrow> nat \<Rightarrow> bool" where
  "list_item_parts s pre ind marker n =
     (s = pre @ ind @ marker @ replicate (Suc n) SP
      \<and> (pre = [] \<or> last pre = LF)
      \<and> set ind \<subseteq> {SP, TAB}
      \<and> is_list_marker marker)"

definition list_item_start :: "string \<Rightarrow> bool" where
  "list_item_start s = (\<exists>pre ind marker n. list_item_parts s pre ind marker n)"

text \<open>The end-of-line check: only spaces up to a newline, a carriage return and newline,
  or the end of the text.\<close>

definition at_line_end :: "string \<Rightarrow> bool" where
  "at_line_end s =
     (\<exists>n rest. s = replicate n SP @ rest
        \<and> (rest = [] \<or> (\<exists>t. rest = LF # t) \<or> (\<exists>t. rest = CR # LF # t)))"

text \<open>A file that some link text in \<open>file\<close> resolves to.\<close>

definition resolvable :: "'x App \<Rightarrow> TFile \<Rightarrow> TFile \<Rightarrow> bool" where
  "resolvable app file f = (\<exists>p. getFirstLinkpathDest app p (path file) = Some f)"

subsection \<open>Positions in a string\<close>

text \<open>Index-level counterparts, used to connect the matcher with the predicates above:
  the characters from \<open>i\<close> up to \<open>j\<close> all lie in \<open>cs\<close>; the part of \<open>s\<close> from \<open>i\<close> up to \<open>j\<close>;
  where a match of \<^verbatim>\<open>(?:^|\n)\<close> begun at \<open>p\<close> ends; what \<^verbatim>\<open>\r?\n|$\<close> accepts at \<open>j\<close>; a
  list marker from \<open>j\<close> up to \<open>k\<close>; and a whole match of \<open>listLineStartRE\<close>.\<close>

definition run :: "char list \<Rightarrow> string \<Rightarrow> nat \<Rightarrow> nat \<Rightarrow> bool" where
  "run cs s i j = (i \<le> j \<and> (\<forall>k. i \<le> k \<and> k < j \<longrightarrow> k < length s \<and> s ! k \<in> set cs))"

definition slice :: "string \<Rightarrow> nat \<Rightarrow> nat \<Rightarrow> string" where
  "slice s i j = take (j - i) (drop i s)"

definition line_start :: "string \<Rightarrow> nat \<Rightarrow> nat \<Rightarrow> bool" where
  "line_start s p i = ((p = 0 \<and> i = 0) \<or> (p < length s \<and> s ! p = LF \<and> i = Suc p))"

definition line_tail :: "string \<Rightarrow> nat \<Rightarrow> bool" where
  "line_tail s j =
     ((j < length s \<and> s ! j = CR \<and> Suc j < length s \<and> s ! Suc j = LF)
      \<or> (j < length s \<and> s ! j = LF) \<or> j = length s)"

definition marker_at :: "string \<Rightarrow> nat \<Rightarrow> nat \<Rightarrow> bool" where
  "marker_at s j k =
     ((j < length s \<and> s ! j \<in> set ''-*+'' \<and> k = Suc j)
      \<or> (\<exists>d. j < d \<and> run digits s j d \<and> d < length s \<and> s ! d \<in> set ''.)'' \<and> k = Suc d))"

definition list_parse :: "string \<Rightarrow> nat \<Rightarrow> nat \<Rightarrow> nat \<Rightarrow> nat \<Rightarrow> bool" where
  "list_parse s p i j k =
     (line_start s p i \<and> run [SP, TAB] s i j \<and> marker_at s j k
      \<and> k < length s \<and> run [SP] s k (length s))"

text \<open>A region found from offset \<open>li\<close> on: it starts at a start marker and its end is 12
  behind the start of the first end marker that begins at least 10 after it.\<close>

definition pairs_markers :: "string \<Rightarrow> nat \<Rightarrow> region \<Rightarrow> bool" where
  "pairs_markers text li r =
     (\<exists>p e. li \<le> p \<and> region_start r = int p \<and> occurs_at ''%%hidden%%'' text p
        \<and> p + 10 \<le> e \<and> occurs_at ''%%/hidden%%'' text e
        \<and> (\<forall>e'. p + 10 \<le> e' \<and> e' < e \<longrightarrow> \<not> occurs_at ''%%/hidden%%'' text e')
        \<and> region_end r = int e + 12)"

section \<open>Helpers of \<^verbatim>\<open>./util\<close>, modelled from the specification\<close>

text \<open>Modelled from the spec: \<^verbatim>\<open>stripFirstBullet\<close> of \<^verbatim>\<open>./util\<close>, whose code is not in
  \<^verbatim>\<open>bake.ts\<close>. The specification says: ``strip the first bullet/number marker from the
  baked content''. The model removes, from the start of the content, an indent of spaces
  and tabs, a marker and the spaces behind it, when the content starts so, and leaves
  other content as it is.\<close>

definition firstBulletRE :: regex where
  "firstBulletRE =
     Seq Bol (Seq (Star (Chars [SP, TAB]))
    (Seq (Alt (Chars ''-*+'') (Seq (Plus (Chars digits)) (Chars ''.)'')))
         (Plus (Chars [SP]))))"

definition stripFirstBullet_spec :: "string \<Rightarrow> string" where
  "stripFirstBullet_spec t =
     (case ends firstBulletRE t (0, Map.empty) of
        [] \<Rightarrow> t
      | st # _ \<Rightarrow> drop (fst st) t)"

text \<open>Modelled from the spec: \<^verbatim>\<open>applyIndent\<close> of \<^verbatim>\<open>./util\<close>, whose code is not in
  \<^verbatim>\<open>bake.ts\<close>. The specification says: ``re-indent every line of it by the captured
  indent string'', the first line being ``merged into the existing bullet and subsequent
  lines indented to match''. The model puts the indent string behind every newline.\<close>

definition applyIndent_spec :: "string \<Rightarrow> string \<Rightarrow> string" where
  "applyIndent_spec t indent = concat (map (\<lambda>c. if c = LF then LF # indent else [c]) t)"

section \<open>Example vaults\<close>

text \<open>Concrete hosts on which the theorems below are run. In them \<^verbatim>\<open>parseLinktext\<close> splits
  the link text at the first \<open>#\<close>, no subpath resolves, and sanitizing and URI encoding
  change nothing (the example texts hold nothing the specification would have stripped).\<close>

definition split_linktext :: "string \<Rightarrow> string \<times> string" where
  "split_linktext l = (takeWhile (\<lambda>c. c \<noteq> CHR ''#'') l, dropWhile (\<lambda>c. c \<noteq> CHR ''#'') l)"

definition plain_lib :: "(unit, unit) Lib" where
  "plain_lib =
     \<lparr>parseLinktext = split_linktext,
      resolveSubpath = (\<lambda>cache sp. None),
      isWin = False,
      extractSubpath = (\<lambda>t r cache. t),
      sanitizeBakedContent = (\<lambda>t. t),
      stripFirstBullet = (\<lambda>t. t),
      applyIndent = (\<lambda>t indent. t),
      encodeURI = (\<lambda>t. t)\<rparr>"

definition spec_lib :: "(unit, unit) Lib" where
  "spec_lib =
     plain_lib\<lparr>stripFirstBullet := stripFirstBullet_spec, applyIndent := applyIndent_spec\<rparr>"

definition settings_all :: BakeSettings where
  "settings_all =
     \<lparr>bakeHidden = True, bakeLinks = True, bakeEmbeds = True, bakeInList = True,
      convertFileLinks = True\<rparr>"

definition settings_strip :: BakeSettings where
  "settings_strip = settings_all\<lparr>bakeHidden := False\<rparr>"

definition host_md :: TFile where
  "host_md = \<lparr>path = ''Host.md'', extension = ''md''\<rparr>"

definition note_md :: TFile where
  "note_md = \<lparr>path = ''Note.md'', extension = ''md''\<rparr>"

definition pic_png :: TFile where
  "pic_png = \<lparr>path = ''pic.png'', extension = ''png''\<rparr>"

definition ref :: "string \<Rightarrow> string option \<Rightarrow> int \<Rightarrow> int \<Rightarrow> ReferenceCache" where
  "ref l d s e =
     \<lparr>link = l, displayText = d, position_start_offset = s, position_end_offset = e\<rparr>"

text \<open>A vault whose one file reads as the text of the hidden-region example and has no
  references.\<close>

definition hidden_vault :: "unit App" where
  "hidden_vault =
     \<lparr>cachedRead = (\<lambda>f. Some ''A%%hidden%%B%%/hidden%%C''),
      getFileCache = (\<lambda>f. Some \<lparr>links = Some [], embeds = Some [], sections = ()\<rparr>),
      getFirstLinkpathDest = (\<lambda>p q. None),
      getFullPath = None\<rparr>"

text \<open>A vault whose one file has no entry in the metadata cache.\<close>

definition uncached_vault :: "unit App" where
  "uncached_vault =
     \<lparr>cachedRead = (\<lambda>f. Some ''See [[Note]] here.''),
      getFileCache = (\<lambda>f. None),
      getFirstLinkpathDest = (\<lambda>p q. None),
      getFullPath = None\<rparr>"

text \<open>A vault with \<^verbatim>\<open>Host.md\<close>, whose text and links are given, the note \<^verbatim>\<open>Note.md\<close> of
  two lines and no references, and the picture \<^verbatim>\<open>pic.png\<close>; the adapter has no
  \<^verbatim>\<open>getFullPath\<close>.\<close>

definition note_vault :: "string \<Rightarrow> ReferenceCache list \<Rightarrow> unit App" where
  "note_vault hostText hostLinks =
     \<lparr>cachedRead = (\<lambda>f. if f = host_md then Some hostText
                         else Some (''Line1'' @ [LF] @ ''Line2'')),
      getFileCache = (\<lambda>f. if f = host_md
                           then Some \<lparr>links = Some hostLinks, embeds = None, sections = ()\<rparr>
                           else Some \<lparr>links = None, embeds = None, sections = ()\<rparr>),
      getFirstLinkpathDest = (\<lambda>p q. if p = ''Note'' then Some note_md
                                     else if p = ''pic.png'' then Some pic_png else None),
      getFullPath = None\<rparr>"

text \<open>A vault of two notes that embed each other: \<^verbatim>\<open>X.md\<close> is \<^verbatim>\<open>![[Y]]\<close> and \<^verbatim>\<open>Y.md\<close> is
  a line of text followed by \<^verbatim>\<open>![[X]]\<close>.\<close>

definition note_x :: TFile where
  "note_x = \<lparr>path = ''X.md'', extension = ''md''\<rparr>"

definition note_y :: TFile where
  "note_y = \<lparr>path = ''Y.md'', extension = ''md''\<rparr>"

definition cyclic_vault :: "unit App" where
  "cyclic_vault =
     \<lparr>cachedRead = (\<lambda>f. if f = note_x then Some ''![[Y]]''
                         else Some (''y then'' @ [LF] @ ''![[X]]'')),
      getFileCache = (\<lambda>f. if f = note_x
          then Some \<lparr>links = None, embeds = Some [ref ''Y'' (Some ''Y'') 0 6], sections = ()\<rparr>
          else Some \<lparr>links = None, embeds = Some [ref ''X'' (Some ''X'') 7 13], sections = ()\<rparr>),
      getFirstLinkpathDest = (\<lambda>p q. if p = ''X'' then Some note_x
                                     else if p = ''Y'' then Some note_y else None),
      getFullPath = None\<rparr>"

section \<open>Searching for a literal\<close>

lemma find_upt_Some:
  "List.find P [m ..< n] = Some p \<longleftrightarrow> m \<le> p \<and> p < n \<and> P p \<and> (\<forall>q. m \<le> q \<and> q < p \<longrightarrow> \<not> P q)"
proof (induction "n - m" arbitrary: m)
  case 0
  then show ?case by auto
next
  case (Suc k)
  then have mn: "m < n" by simp
  have IH: "List.find P [Suc m ..< n] = Some p \<longleftrightarrow>
      Suc m \<le> p \<and> p < n \<and> P p \<and> (\<forall>q. Suc m \<le> q \<and> q < p \<longrightarrow> \<not> P q)"
    using Suc by simp
  show ?case
  proof (cases "P m")
    case True
    then show ?thesis using mn by (auto simp: upt_conv_Cons)
  next
    case False
    then have "List.find P [m ..< n] = List.find P [Suc m ..< n]"
      using mn by (simp add: upt_conv_Cons)
    then show ?thesis using IH False
      by (metis Suc_leD Suc_leI le_neq_implies_less)
  qed
qed

lemma find_upt_None:
  "List.find P [m ..< n] = None \<longleftrightarrow> (\<forall>q. m \<le> q \<and> q < n \<longrightarrow> \<not> P q)"
  by (auto simp: find_None_iff)

lemma ends_Lit_nonempty: "ends (Lit w) s (p, c) \<noteq> [] \<longleftrightarrow> occurs_at w s p"
  by (simp add: ends_Lit occurs_at_def)

lemma find_occurs:
  "List.find (\<lambda>p. ends (Lit w) s (p, Map.empty) \<noteq> []) xs = List.find (occurs_at w s) xs"
  by (simp only: ends_Lit_nonempty)

lemma regex_search_Lit_Some:
  "regex_search (Lit w) s li = Some (p, st) \<longleftrightarrow>
     li \<le> p \<and> p \<le> length s \<and> occurs_at w s p
     \<and> (\<forall>q. li \<le> q \<and> q < p \<longrightarrow> \<not> occurs_at w s q)
     \<and> st = (p + length w, Map.empty)"
proof (cases "List.find (occurs_at w s) [li ..< Suc (length s)]")
  case None
  then have "regex_search (Lit w) s li = None"
    unfolding regex_search_def find_occurs by simp
  moreover have "\<not> (li \<le> p \<and> p \<le> length s \<and> occurs_at w s p)"
    using None unfolding find_upt_None by auto
  ultimately show ?thesis by auto
next
  case (Some p')
  from Some [unfolded find_upt_Some]
  have p': "li \<le> p'" "p' \<le> length s" "occurs_at w s p'"
      "\<forall>q. li \<le> q \<and> q < p' \<longrightarrow> \<not> occurs_at w s q"
    by auto
  have r: "regex_search (Lit w) s li = Some (p', (p' + length w, Map.empty))"
    unfolding regex_search_def find_occurs Some
    using p'(3) by (simp add: ends_Lit occurs_at_def)
  show ?thesis
  proof
    assume "regex_search (Lit w) s li = Some (p, st)"
    with r p' show "li \<le> p \<and> p \<le> length s \<and> occurs_at w s p
     \<and> (\<forall>q. li \<le> q \<and> q < p \<longrightarrow> \<not> occurs_at w s q)
     \<and> st = (p + length w, Map.empty)" by auto
  next
    assume a: "li \<le> p \<and> p \<le> length s \<and> occurs_at w s p
     \<and> (\<forall>q. li \<le> q \<and> q < p \<longrightarrow> \<not> occurs_at w s q)
     \<and> st = (p + length w, Map.empty)"
    with p' have "p = p'" by (metis linorder_neqE_nat)
    with r a show "regex_search (Lit w) s li = Some (p, st)" by simp
  qed
qed

lemma regex_search_Lit_None:
  "regex_search (Lit w) s li = None \<longleftrightarrow> (\<forall>q. li \<le> q \<and> q \<le> length s \<longrightarrow> \<not> occurs_at w s q)"
proof -
  have "regex_search (Lit w) s li = None \<longleftrightarrow> List.find (occurs_at w s) [li ..< Suc (length s)] = None"
    unfolding regex_search_def find_occurs by (simp split: option.splits)
  then show ?thesis unfolding find_upt_None by auto
qed

section \<open>The regions the scan finds\<close>

lemma occurs_at_bound: "occurs_at w s p \<Longrightarrow> w \<noteq> [] \<Longrightarrow> p + length w \<le> length s"
proof -
  assume a: "occurs_at w s p" "w \<noteq> []"
  then have "length (take (length w) (drop p s)) = length w" by (simp add: occurs_at_def)
  then have "length w \<le> length s - p" by simp
  moreover have "0 < length w" using a(2) by simp
  ultimately show ?thesis by linarith
qed

lemma find_hidden_regions_step:
  "find_hidden_regions text li acc =
     (case regex_search hiddenStartRE text li of
        None \<Rightarrow> acc
      | Some (p, st) \<Rightarrow>
          find_hidden_regions text (fst st)
            (case regex_search hiddenEndRE text (p + 10) of
               None \<Rightarrow> acc
             | Some (e, st') \<Rightarrow> acc @ [\<lparr>region_start = int p, region_end = int e + 12\<rparr>]))"
  by (subst find_hidden_regions.simps)
     (simp add: exec_global_def split: option.splits prod.splits)

lemma find_hidden_regions_acc:
  "find_hidden_regions text li acc = acc @ find_hidden_regions text li []"
proof (induction "Suc (length text) - li" arbitrary: li acc rule: less_induct)
  case less
  show ?case
  proof (cases "regex_search hiddenStartRE text li")
    case None
    then show ?thesis by (simp add: find_hidden_regions_step [of "text" li])
  next
    case (Some m)
    obtain p st where m: "m = (p, st)" by (cases m)
    from Some m have prog: "li < fst st" "fst st \<le> length text"
      using hiddenStartRE_progress [of "text" li p st] by simp_all
    then have dec: "Suc (length text) - fst st < Suc (length text) - li" by simp
    define a0 where "a0 = (case regex_search hiddenEndRE text (p + 10) of
               None \<Rightarrow> []
             | Some (e, st') \<Rightarrow> [\<lparr>region_start = int p, region_end = int e + 12\<rparr>])"
    have 1: "find_hidden_regions text li acc = find_hidden_regions text (fst st) (acc @ a0)"
      by (subst find_hidden_regions_step) (simp add: Some m a0_def split: option.splits)
    have 2: "find_hidden_regions text li [] = find_hidden_regions text (fst st) a0"
      by (subst find_hidden_regions_step) (simp add: Some m a0_def split: option.splits)
    have 3: "find_hidden_regions text (fst st) (acc @ a0) = (acc @ a0) @ find_hidden_regions text (fst st) []"
      by (rule less [OF dec])
    have 4: "find_hidden_regions text (fst st) a0 = a0 @ find_hidden_regions text (fst st) []"
      by (rule less [OF dec])
    show ?thesis unfolding 1 2 3 by (simp add: 4)
  qed
qed

lemma find_hidden_regions_unfold:
  "find_hidden_regions text li [] =
     (case regex_search hiddenStartRE text li of
        None \<Rightarrow> []
      | Some (p, st) \<Rightarrow>
          (case regex_search hiddenEndRE text (p + 10) of
             None \<Rightarrow> []
           | Some (e, st') \<Rightarrow> [\<lparr>region_start = int p, region_end = int e + 12\<rparr>])
          @ find_hidden_regions text (p + 10) [])"
proof (cases "regex_search hiddenStartRE text li")
  case None
  then show ?thesis by (subst find_hidden_regions_step) simp
next
  case (Some m)
  obtain p st where m: "m = (p, st)" by (cases m)
  have st: "fst st = p + 10"
    using Some m regex_search_Lit_Some [of "''%%hidden%%''" "text" li p st]
    by (simp add: hiddenStartRE_def)
  show ?thesis
    apply (subst find_hidden_regions_step)
    apply (simp add: Some m st split: option.splits)
    apply (subst find_hidden_regions_acc)
    apply simp
    done
qed

lemma pairs_markers_mono: "pairs_markers text li r \<Longrightarrow> l \<le> li \<Longrightarrow> pairs_markers text l r"
  unfolding pairs_markers_def by (meson le_trans)

lemma find_hidden_regions_pairs:
  "\<forall>r \<in> set (find_hidden_regions text li []). pairs_markers text li r"
proof (induction "Suc (length text) - li" arbitrary: li rule: less_induct)
  case less
  show ?case
  proof (cases "regex_search hiddenStartRE text li")
    case None
    then show ?thesis by (subst find_hidden_regions_unfold) simp
  next
    case (Some m)
    obtain p st where m: "m = (p, st)" by (cases m)
    from Some m have p: "li \<le> p" "p \<le> length text" "occurs_at ''%%hidden%%'' text p"
      using regex_search_Lit_Some [of "''%%hidden%%''" "text" li p st]
      by (simp_all add: hiddenStartRE_def)
    from occurs_at_bound [OF p(3)] have "p + 10 \<le> length text" by simp
    have dec: "Suc (length text) - (p + 10) < Suc (length text) - li"
      using p \<open>p + 10 \<le> length text\<close> by simp
    have rest: "\<forall>r \<in> set (find_hidden_regions text (p + 10) []). pairs_markers text li r"
      using less [OF dec] p(1) pairs_markers_mono [of "text" "p + 10" _ li] by auto
    have first: "pairs_markers text li \<lparr>region_start = int p, region_end = int e + 12\<rparr>"
      if "regex_search hiddenEndRE text (p + 10) = Some (e, st')" for e st'
      using that p regex_search_Lit_Some [of "''%%/hidden%%''" "text" "p + 10" e st']
      unfolding pairs_markers_def hiddenEndRE_def by auto
    show ?thesis
    proof (cases "regex_search hiddenEndRE text (p + 10)")
      case None
      with rest show ?thesis
        by (subst find_hidden_regions_unfold) (simp add: Some m)
    next
      case found: (Some me)
      obtain e st' where me: "me = (e, st')" by (cases me)
      from first [of e st'] found me rest show ?thesis
        by (subst find_hidden_regions_unfold) (simp add: Some m)
    qed
  qed
qed

lemma find_hidden_regions_sorted:
  "sorted_wrt (\<lambda>a b. region_start a + 10 \<le> region_start b) (find_hidden_regions text li [])"
proof (induction "Suc (length text) - li" arbitrary: li rule: less_induct)
  case less
  show ?case
  proof (cases "regex_search hiddenStartRE text li")
    case None
    then show ?thesis by (subst find_hidden_regions_unfold) simp
  next
    case (Some m)
    obtain p st where m: "m = (p, st)" by (cases m)
    from Some m have p: "li \<le> p" "occurs_at ''%%hidden%%'' text p"
      using regex_search_Lit_Some [of "''%%hidden%%''" "text" li p st]
      by (simp_all add: hiddenStartRE_def)
    from occurs_at_bound [OF p(2)] have "p + 10 \<le> length text" by simp
    then have dec: "Suc (length text) - (p + 10) < Suc (length text) - li"
      using p by simp
    have later: "\<forall>r \<in> set (find_hidden_regions text (p + 10) []). int p + 10 \<le> region_start r"
      using find_hidden_regions_pairs [of "text" "p + 10"] unfolding pairs_markers_def by auto
    have rest: "sorted_wrt (\<lambda>a b. region_start a + 10 \<le> region_start b)
        (find_hidden_regions text (p + 10) [])"
      by (rule less [OF dec])
    show ?thesis
    proof (cases "regex_search hiddenEndRE text (p + 10)")
      case None
      with rest show ?thesis
        by (subst find_hidden_regions_unfold) (simp add: Some m)
    next
      case found: (Some me)
      obtain e st' where me: "me = (e, st')" by (cases me)
      from found me rest later show ?thesis
        by (subst find_hidden_regions_unfold) (simp add: Some m)
    qed
  qed
qed

lemma sorted_wrt_weaken:
  "sorted_wrt P xs \<Longrightarrow> (\<And>a b. P a b \<Longrightarrow> Q a b) \<Longrightarrow> sorted_wrt Q xs"
  by (rule sorted_wrt_mono_rel) auto

text \<open>The rules of the scan, one round at a time.\<close>

lemma first_at_search:
  assumes "first_at w s li p" and "w \<noteq> []"
  shows "regex_search (Lit w) s li = Some (p, (p + length w, Map.empty))"
proof -
  from assms(1) have p: "li \<le> p" "occurs_at w s p"
    "\<forall>q. li \<le> q \<and> q < p \<longrightarrow> \<not> occurs_at w s q"
    unfolding first_at_def by auto
  from occurs_at_bound [OF p(2) assms(2)] have "p \<le> length s" by simp
  with p show ?thesis unfolding regex_search_Lit_Some by simp
qed

lemma none_at_search:
  assumes "\<forall>p. li \<le> p \<longrightarrow> \<not> occurs_at w s p"
  shows "regex_search (Lit w) s li = None"
  using assms unfolding regex_search_Lit_None by simp

lemma scan_no_start:
  assumes "\<forall>p. li \<le> p \<longrightarrow> \<not> occurs_at ''%%hidden%%'' text p"
  shows "find_hidden_regions text li [] = []"
proof -
  have "regex_search hiddenStartRE text li = None"
    unfolding hiddenStartRE_def using assms by (rule none_at_search)
  then show ?thesis by (subst find_hidden_regions_unfold) simp
qed

lemma scan_unmatched_start:
  assumes "first_at ''%%hidden%%'' text li p"
    and "\<forall>e. p + 10 \<le> e \<longrightarrow> \<not> occurs_at ''%%/hidden%%'' text e"
  shows "find_hidden_regions text li [] = find_hidden_regions text (p + 10) []"
proof -
  have 1: "regex_search hiddenStartRE text li = Some (p, (p + 10, Map.empty))"
    unfolding hiddenStartRE_def using first_at_search [OF assms(1)] by simp
  have 2: "regex_search hiddenEndRE text (p + 10) = None"
    unfolding hiddenEndRE_def using assms(2) by (rule none_at_search)
  show ?thesis by (subst find_hidden_regions_unfold) (simp add: 1 2)
qed

lemma scan_matched_start:
  assumes "first_at ''%%hidden%%'' text li p"
    and "first_at ''%%/hidden%%'' text (p + 10) e"
  shows "find_hidden_regions text li [] =
           \<lparr>region_start = int p, region_end = int e + 12\<rparr> # find_hidden_regions text (p + 10) []"
proof -
  have 1: "regex_search hiddenStartRE text li = Some (p, (p + 10, Map.empty))"
    unfolding hiddenStartRE_def using first_at_search [OF assms(1)] by simp
  have 2: "regex_search hiddenEndRE text (p + 10) = Some (e, (e + 11, Map.empty))"
    unfolding hiddenEndRE_def using first_at_search [OF assms(2)] by simp
  show ?thesis by (subst find_hidden_regions_unfold) (simp add: 1 2)
qed

lemma scan_nested_starts:
  assumes "first_at ''%%hidden%%'' text li p"
    and "first_at ''%%hidden%%'' text (p + 10) q"
    and "first_at ''%%/hidden%%'' text (p + 10) e"
    and "q + 10 \<le> e"
  shows "find_hidden_regions text li [] =
           \<lparr>region_start = int p, region_end = int e + 12\<rparr>
           # \<lparr>region_start = int q, region_end = int e + 12\<rparr>
           # find_hidden_regions text (q + 10) []"
proof -
  from assms(2) have pq: "p + 10 \<le> q" unfolding first_at_def by simp
  have "first_at ''%%/hidden%%'' text (q + 10) e"
    using assms(3,4) pq unfolding first_at_def by auto
  from scan_matched_start [OF assms(2) this] scan_matched_start [OF assms(1,3)]
  show ?thesis by simp
qed


lemma first_at_upt:
  "first_at w s li p \<longleftrightarrow>
     li \<le> p \<and> occurs_at w s p \<and> (\<forall>q \<in> set [li ..< p]. \<not> occurs_at w s q)"
  by (auto simp: first_at_def)

section \<open>The bound on the rounds of an iteration\<close>

lemma iter_in_range:
  assumes "\<And>st st'. st' \<in> set (f st) \<Longrightarrow> fst st \<le> N \<Longrightarrow> fst st' \<le> N"
  shows "st' \<in> set (iter n f st) \<Longrightarrow> fst st \<le> N \<Longrightarrow> fst st' \<le> N"
proof (induction n arbitrary: st)
  case 0
  then show ?case by simp
next
  case (Suc n)
  from Suc.prems(1) consider "st' = st"
    | st1 where "st1 \<in> set (f st)" "st' \<in> set (iter n f st1)"
    by auto
  then show ?case
  proof cases
    case 1
    with Suc.prems(2) show ?thesis by simp
  next
    case 2
    from assms [OF 2(1) Suc.prems(2)] have "fst st1 \<le> N" .
    with Suc.IH [OF 2(2)] show ?thesis .
  qed
qed

lemma ends_in_range:
  "st' \<in> set (ends r s st) \<Longrightarrow> fst st \<le> length s \<Longrightarrow> fst st' \<le> length s"
proof (induction r arbitrary: st st')
  case (Star r)
  have keep: "\<And>a b. b \<in> set (ends r s a) \<Longrightarrow> fst a \<le> length s \<Longrightarrow> fst b \<le> length s"
    by (rule Star.IH)
  from Star.prems(1) have "st' \<in> set (iter (length s - fst st) (ends r s) st)" by simp
  from iter_in_range [where f = "ends r s" and N = "length s", OF keep this Star.prems(2)]
  show ?case .
next
  case (Seq a b)
  from Seq.prems(1) obtain st1 where 1: "st1 \<in> set (ends a s st)"
    and 2: "st' \<in> set (ends b s st1)"
    by auto
  from Seq.IH(1) [OF 1 Seq.prems(2)] have "fst st1 \<le> length s" .
  from Seq.IH(2) [OF 2 this] show ?case .
next
  case (Alt a b)
  from Alt.prems(1) have "st' \<in> set (ends a s st) \<or> st' \<in> set (ends b s st)" by simp
  then show ?case
  proof
    assume "st' \<in> set (ends a s st)"
    from Alt.IH(1) [OF this Alt.prems(2)] show ?thesis .
  next
    assume "st' \<in> set (ends b s st)"
    from Alt.IH(2) [OF this Alt.prems(2)] show ?thesis .
  qed
next
  case (Group k r)
  obtain i c where st: "st = (i, c)" by (cases st)
  from Group.prems(1) obtain j c' where 1: "(j, c') \<in> set (ends r s (i, c))"
    and 2: "fst st' = j"
    unfolding st by auto
  have "fst (i, c) \<le> length s" using Group.prems(2) st by simp
  from Group.IH [OF 1 this] 2 show ?case by simp
next
  case (Chars cs)
  obtain i c where st: "st = (i, c)" by (cases st)
  from Chars show ?case unfolding st by (auto split: if_splits)
next
  case Bol
  obtain i c where st: "st = (i, c)" by (cases st)
  from Bol show ?case unfolding st by (auto split: if_splits)
next
  case Eol
  obtain i c where st: "st = (i, c)" by (cases st)
  from Eol show ?case unfolding st by (auto split: if_splits)
next
  case Eps
  then show ?case by simp
qed

lemma iter_rounds_enough:
  assumes "\<And>st st'. st' \<in> set (f st) \<Longrightarrow> fst st \<le> N \<Longrightarrow> fst st' \<le> N"
  shows "fst st \<le> N \<Longrightarrow> N - fst st \<le> n \<Longrightarrow> iter n f st = iter (N - fst st) f st"
proof (induction "N - fst st" arbitrary: st n rule: less_induct)
  case less
  show ?case
  proof (cases n)
    case 0
    with less.prems show ?thesis by simp
  next
    case n: (Suc n')
    show ?thesis
    proof (cases "N - fst st")
      case 0
      with less.prems(1) have "fst st = N" by simp
      have "\<not> fst st < fst st1" if "st1 \<in> set (f st)" for st1
        using assms [OF that less.prems(1)] \<open>fst st = N\<close> by simp
      then have "filter (\<lambda>st'. fst st < fst st') (f st) = []"
        unfolding filter_empty_conv by blast
      with 0 n show ?thesis by simp
    next
      case (Suc k)
      have same: "iter n' f st1 = iter k f st1"
        if "st1 \<in> set (filter (\<lambda>st'. fst st < fst st') (f st))" for st1
      proof -
        from that have m: "st1 \<in> set (f st)" "fst st < fst st1" by auto
        from assms [OF m(1) less.prems(1)] have le: "fst st1 \<le> N" .
        have d: "N - fst st1 < N - fst st" using m(2) le by linarith
        have k: "N - fst st1 \<le> k" using m(2) Suc by linarith
        have "k \<le> n'" using Suc n less.prems(2) by linarith
        with k have n': "N - fst st1 \<le> n'" by simp
        have "iter n' f st1 = iter (N - fst st1) f st1"
          by (rule less.hyps [OF d le n'])
        also have "iter (N - fst st1) f st1 = iter k f st1"
          by (rule less.hyps [OF d le k, symmetric])
        finally show ?thesis .
      qed
      have "map (iter n' f) (filter (\<lambda>st'. fst st < fst st') (f st))
          = map (iter k f) (filter (\<lambda>st'. fst st < fst st') (f st))"
        by (rule map_cong [OF refl]) (rule same)
      then show ?thesis unfolding n Suc iter.simps by (simp only:)
    qed
  qed
qed

text \<open>More rounds than \<open>length s - i\<close> change nothing: the bound in \<open>ends (Star a)\<close> cuts no
  match off.\<close>

lemma Star_rounds_enough:
  assumes "fst st \<le> length s" and "length s - fst st \<le> n"
  shows "iter n (ends a s) st = ends (Star a) s st"
proof -
  have "iter n (ends a s) st = iter (length s - fst st) (ends a s) st"
  proof (rule iter_rounds_enough [where N = "length s"])
    show "fst st' \<le> length s" if "st' \<in> set (ends a s st)" "fst st \<le> length s" for st st'
      using that by (rule ends_in_range)
    show "fst st \<le> length s" by (rule assms(1))
    show "length s - fst st \<le> n" by (rule assms(2))
  qed
  then show ?thesis by simp
qed

section \<open>What the matcher accepts\<close>

lemma run_refl: "run cs s i i"
  by (auto simp: run_def)

lemma run_step:
  "run cs s i j \<longleftrightarrow> j = i \<or> (i < length s \<and> s ! i \<in> set cs \<and> run cs s (Suc i) j)"
proof
  assume r: "run cs s i j"
  show "j = i \<or> (i < length s \<and> s ! i \<in> set cs \<and> run cs s (Suc i) j)"
  proof (cases "j = i")
    case True
    then show ?thesis by simp
  next
    case False
    with r have ij: "i < j" by (simp add: run_def)
    with r have "i < length s \<and> s ! i \<in> set cs" unfolding run_def by blast
    moreover have "run cs s (Suc i) j"
    proof -
      have "Suc i \<le> j" using ij by simp
      moreover have "k < length s \<and> s ! k \<in> set cs" if "Suc i \<le> k \<and> k < j" for k
      proof -
        from that have "i \<le> k \<and> k < j" by simp
        with r show ?thesis unfolding run_def by blast
      qed
      ultimately show ?thesis unfolding run_def by blast
    qed
    ultimately show ?thesis by simp
  qed
next
  assume "j = i \<or> (i < length s \<and> s ! i \<in> set cs \<and> run cs s (Suc i) j)"
  then show "run cs s i j"
  proof
    assume "j = i"
    then show ?thesis by (simp add: run_refl)
  next
    assume a: "i < length s \<and> s ! i \<in> set cs \<and> run cs s (Suc i) j"
    have "i \<le> j" using a by (simp add: run_def)
    moreover have "k < length s \<and> s ! k \<in> set cs" if k: "i \<le> k \<and> k < j" for k
    proof (cases "k = i")
      case True
      with a show ?thesis by simp
    next
      case False
      with k have "Suc i \<le> k \<and> k < j" by simp
      with a show ?thesis unfolding run_def by blast
    qed
    ultimately show ?thesis unfolding run_def by blast
  qed
qed

lemma run_bound: "run cs s i j \<Longrightarrow> i \<le> length s \<Longrightarrow> j \<le> length s"
proof (rule ccontr)
  assume r: "run cs s i j" and i: "i \<le> length s" and "\<not> j \<le> length s"
  then have "i \<le> length s \<and> length s < j" by simp
  with r have "length s < length s" unfolding run_def by blast
  then show False by simp
qed

lemma set_iter_Chars:
  "set (iter n (ends (Chars cs) s) (i, c)) = {(j, c) | j. run cs s i j \<and> j \<le> i + n}"
proof (induction n arbitrary: i)
  case 0
  show ?case by (auto simp: run_def)
next
  case (Suc n)
  show ?case
  proof (cases "i < length s \<and> s ! i \<in> set cs")
    case True
    then have "set (iter (Suc n) (ends (Chars cs) s) (i, c)) =
        {(j, c) | j. run cs s (Suc i) j \<and> j \<le> Suc i + n} \<union> {(i, c)}"
      by (simp add: Suc.IH)
    also have "\<dots> = {(j, c) | j. run cs s i j \<and> j \<le> i + Suc n}"
      using True by (subst (2) run_step) (auto simp: run_def)
    finally show ?thesis .
  next
    case False
    then have "set (iter (Suc n) (ends (Chars cs) s) (i, c)) = {(i, c)}"
      by auto
    also have "\<dots> = {(j, c) | j. run cs s i j \<and> j \<le> i + Suc n}"
      using False by (subst run_step) auto
    finally show ?thesis .
  qed
qed

lemma set_ends_Star_Chars:
  assumes "i \<le> length s"
  shows "set (ends (Star (Chars cs)) s (i, c)) = {(j, c) | j. run cs s i j}"
proof -
  have "run cs s i j \<Longrightarrow> j \<le> i + (length s - i)" for j
    using run_bound [OF _ assms] assms by fastforce
  then show ?thesis by (auto simp: set_iter_Chars)
qed

lemma set_ends_Plus_Chars:
  assumes "i \<le> length s"
  shows "set (ends (Plus (Chars cs)) s (i, c)) = {(j, c) | j. i < j \<and> run cs s i j}"
proof (cases "i < length s \<and> s ! i \<in> set cs")
  case True
  then have "set (ends (Plus (Chars cs)) s (i, c)) = {(j, c) | j. run cs s (Suc i) j}"
    using set_ends_Star_Chars [of "Suc i" s cs c] by (simp add: Plus_def)
  also have "\<dots> = {(j, c) | j. i < j \<and> run cs s i j}"
    using True by (subst (2) run_step) (auto simp: run_def)
  finally show ?thesis .
next
  case False
  then have "set (ends (Plus (Chars cs)) s (i, c)) = {}"
    by (auto simp: Plus_def)
  also have "\<dots> = {(j, c) | j. i < j \<and> run cs s i j}"
    using False by (subst run_step) auto
  finally show ?thesis .
qed

lemma slice_append:
  assumes "i \<le> j" and "j \<le> k"
  shows "slice s i k = slice s i j @ slice s j k"
proof -
  have k: "k - i = (j - i) + (k - j)" using assms by simp
  have "drop (j - i) (drop i s) = drop j s" using assms by simp
  then show ?thesis unfolding slice_def k take_add by simp
qed

lemma slice_full: "slice s 0 (length s) = s"
  by (simp add: slice_def)

lemma slice_to_end: "slice s i (length s) = drop i s"
  by (simp add: slice_def)

lemma length_slice: "j \<le> length s \<Longrightarrow> length (slice s i j) = j - i"
  by (simp add: slice_def)

lemma slice_nth:
  "k < j - i \<Longrightarrow> j \<le> length s \<Longrightarrow> slice s i j ! k = s ! (i + k)"
  by (simp add: slice_def)

lemma run_slice:
  assumes "i \<le> j" "j \<le> length s"
  shows "run cs s i j \<longleftrightarrow> set (slice s i j) \<subseteq> set cs"
proof
  assume r: "run cs s i j"
  show "set (slice s i j) \<subseteq> set cs"
  proof
    fix x assume "x \<in> set (slice s i j)"
    then obtain k where "k < length (slice s i j)" "x = slice s i j ! k"
      unfolding in_set_conv_nth by blast
    then have k: "k < j - i" "x = slice s i j ! k"
      using assms by (simp_all add: length_slice)
    then have x: "x = s ! (i + k)" using assms by (simp add: slice_nth)
    from k(1) have "i \<le> i + k \<and> i + k < j" by linarith
    with r have "s ! (i + k) \<in> set cs" unfolding run_def by blast
    with x show "x \<in> set cs" by simp
  qed
next
  assume sub: "set (slice s i j) \<subseteq> set cs"
  show "run cs s i j"
    unfolding run_def
  proof (intro conjI allI impI)
    show "i \<le> j" by fact
    fix k assume k: "i \<le> k \<and> k < j"
    then show "k < length s" using assms by simp
    from k have "k - i < j - i" by (simp add: diff_less_mono)
    then have "slice s i j ! (k - i) \<in> set (slice s i j)"
      using assms by (simp add: length_slice)
    moreover have "slice s i j ! (k - i) = s ! k"
      using k assms \<open>k - i < j - i\<close> by (simp add: slice_nth)
    ultimately show "s ! k \<in> set cs" using sub by auto
  qed
qed

lemma set_ends_Seq:
  "set (ends (Seq a b) s st) = (\<Union>st' \<in> set (ends a s st). set (ends b s st'))"
  by simp

lemma ends_nonempty: "ends r s st \<noteq> [] \<longleftrightarrow> set (ends r s st) \<noteq> {}"
  by simp

lemma set_ends_Star_Eol:
  assumes "i \<le> length s"
  shows "set (ends (Seq (Star (Chars cs)) Eol) s (i, c)) =
           (if run cs s i (length s) then {(length s, c)} else {})"
  unfolding set_ends_Seq set_ends_Star_Chars [OF assms] by auto

lemma set_ends_Plus_Eol:
  assumes "i \<le> length s"
  shows "set (ends (Seq (Plus (Chars cs)) Eol) s (i, c)) =
           (if i < length s \<and> run cs s i (length s) then {(length s, c)} else {})"
  unfolding set_ends_Seq set_ends_Plus_Chars [OF assms] by auto

lemma set_ends_line_start:
  "set (ends (Alt Bol (Chars [LF])) s (p, c)) = {(i, c) | i. line_start s p i}"
  by (auto simp: line_start_def)

lemma line_start_bound: "line_start s p i \<Longrightarrow> i \<le> length s"
  by (auto simp: line_start_def)

lemma regex_test_iff:
  "regex_test r s \<longleftrightarrow> (\<exists>p \<le> length s. ends r s (p, Map.empty) \<noteq> [])"
proof -
  have "regex_test r s \<longleftrightarrow> List.find (\<lambda>p. ends r s (p, Map.empty) \<noteq> []) [0 ..< Suc (length s)] \<noteq> None"
    unfolding regex_test_def regex_search_def by (simp split: option.splits)
  then show ?thesis unfolding find_upt_None by (auto simp: less_Suc_eq_le)
qed

lemma lineStartRE_at:
  "set (ends lineStartRE s (p, c)) =
     {(length s, c) | i. line_start s p i \<and> run [SP] s i (length s)}"
proof -
  have "set (ends lineStartRE s (p, c)) =
      (\<Union>st' \<in> {(i, c) | i. line_start s p i}. set (ends (Seq (Star (Chars [SP])) Eol) s st'))"
    unfolding lineStartRE_def set_ends_Seq [of "Alt Bol (Chars [LF])"] set_ends_line_start ..
  also have "\<dots> = {(length s, c) | i. line_start s p i \<and> run [SP] s i (length s)}"
    by (auto simp del: ends.simps simp: set_ends_Star_Eol line_start_bound split: if_splits)
  finally show ?thesis .
qed

lemma all_spaces: "set xs \<subseteq> {SP} \<longleftrightarrow> xs = replicate (length xs) SP"
  by (induction xs) auto

lemma line_start_split:
  "(\<exists>p \<le> length s. line_start s p i) \<longleftrightarrow> i \<le> length s \<and> (take i s = [] \<or> last (take i s) = LF)"
proof
  assume "\<exists>p \<le> length s. line_start s p i"
  then obtain p where "line_start s p i" by blast
  then show "i \<le> length s \<and> (take i s = [] \<or> last (take i s) = LF)"
    unfolding line_start_def by (auto simp: take_Suc_conv_app_nth)
next
  assume a: "i \<le> length s \<and> (take i s = [] \<or> last (take i s) = LF)"
  show "\<exists>p \<le> length s. line_start s p i"
  proof (cases i)
    case 0
    then show ?thesis by (auto simp: line_start_def)
  next
    case (Suc p)
    with a have "p < length s" "last (take (Suc p) s) = LF" by auto
    then have "s ! p = LF" by (simp add: take_Suc_conv_app_nth)
    with \<open>p < length s\<close> Suc show ?thesis by (auto simp: line_start_def)
  qed
qed

lemma lineStartRE_test: "regex_test lineStartRE s \<longleftrightarrow> ends_at_line_start s"
proof -
  have "regex_test lineStartRE s \<longleftrightarrow>
      (\<exists>i. (\<exists>p \<le> length s. line_start s p i) \<and> run [SP] s i (length s))"
    unfolding regex_test_iff ends_nonempty lineStartRE_at by auto
  also have "\<dots> \<longleftrightarrow> (\<exists>i \<le> length s. (take i s = [] \<or> last (take i s) = LF) \<and> set (drop i s) \<subseteq> {SP})"
    unfolding line_start_split using run_slice [of _ "length s" s "[SP]"]
    by (auto simp: slice_to_end)
  also have "\<dots> \<longleftrightarrow> ends_at_line_start s"
  proof
    assume "\<exists>i \<le> length s. (take i s = [] \<or> last (take i s) = LF) \<and> set (drop i s) \<subseteq> {SP}"
    then obtain i where i: "i \<le> length s" "take i s = [] \<or> last (take i s) = LF"
      "set (drop i s) \<subseteq> {SP}" by blast
    from i(3) have "drop i s = replicate (length s - i) SP"
      using all_spaces [of "drop i s"] by simp
    then have "s = take i s @ replicate (length s - i) SP"
      using append_take_drop_id [of i s] by simp
    with i(2) show "ends_at_line_start s" unfolding ends_at_line_start_def by blast
  next
    assume "ends_at_line_start s"
    then obtain pre n where s: "s = pre @ replicate n SP" and pre: "pre = [] \<or> last pre = LF"
      unfolding ends_at_line_start_def by blast
    have "length pre \<le> length s" "take (length pre) s = pre" "drop (length pre) s = replicate n SP"
      using s by simp_all
    with pre show "\<exists>i \<le> length s. (take i s = [] \<or> last (take i s) = LF) \<and> set (drop i s) \<subseteq> {SP}"
      by (intro exI [of _ "length pre"]) auto
  qed
  finally show ?thesis .
qed

lemma drop_eq_Cons: "drop j s = x # t \<longleftrightarrow> j < length s \<and> s ! j = x \<and> drop (Suc j) s = t"
proof (cases "j < length s")
  case True
  then show ?thesis using Cons_nth_drop_Suc [of j s] by auto
next
  case False
  then show ?thesis by simp
qed

lemma ends_line_tail:
  "ends (Alt (Seq (Opt (Chars [CR])) (Chars [LF])) Eol) s (j, c) \<noteq> [] \<longleftrightarrow> line_tail s j"
  by (auto simp: Opt_def line_tail_def)

lemma lineEndRE_at:
  "ends lineEndRE s (p, c) \<noteq> [] \<longleftrightarrow> p = 0 \<and> (\<exists>j. run [SP] s 0 j \<and> line_tail s j)"
proof -
  have "ends lineEndRE s (p, c) \<noteq> [] \<longleftrightarrow>
      (\<exists>st \<in> set (ends Bol s (p, c)). \<exists>st' \<in> set (ends (Star (Chars [SP])) s st).
          ends (Alt (Seq (Opt (Chars [CR])) (Chars [LF])) Eol) s st' \<noteq> [])"
    unfolding lineEndRE_def ends_nonempty set_ends_Seq by (auto simp del: ends.simps)
  also have "\<dots> \<longleftrightarrow> p = 0 \<and> (\<exists>j. run [SP] s 0 j \<and> line_tail s j)"
    using set_ends_Star_Chars [of 0 s "[SP]" c]
    by (auto simp del: ends.simps(5,6,7) simp: ends_line_tail)
  finally show ?thesis .
qed

lemma line_tail_drop:
  "line_tail s j \<longleftrightarrow> j \<le> length s \<and>
     (drop j s = [] \<or> (\<exists>t. drop j s = LF # t) \<or> (\<exists>t. drop j s = CR # LF # t))"
  unfolding line_tail_def drop_eq_Cons by auto

lemma lineEndRE_test: "regex_test lineEndRE s \<longleftrightarrow> at_line_end s"
proof -
  have "regex_test lineEndRE s \<longleftrightarrow> (\<exists>j. run [SP] s 0 j \<and> line_tail s j)"
    unfolding regex_test_iff lineEndRE_at by auto
  also have "\<dots> \<longleftrightarrow> at_line_end s"
  proof
    assume "\<exists>j. run [SP] s 0 j \<and> line_tail s j"
    then obtain j where j: "run [SP] s 0 j" "line_tail s j" by blast
    then have jl: "j \<le> length s" by (simp add: line_tail_drop)
    with j(1) have "set (take j s) \<subseteq> {SP}"
      using run_slice [of 0 j s "[SP]"] by (simp add: slice_def)
    then have "take j s = replicate j SP"
      using all_spaces [of "take j s"] jl by (simp add: min_def)
    then have "s = replicate j SP @ drop j s"
      using append_take_drop_id [of j s] by simp
    with j(2) show "at_line_end s"
      unfolding at_line_end_def line_tail_drop by blast
  next
    assume "at_line_end s"
    then obtain n rest where s: "s = replicate n SP @ rest"
      and rest: "rest = [] \<or> (\<exists>t. rest = LF # t) \<or> (\<exists>t. rest = CR # LF # t)"
      unfolding at_line_end_def by blast
    have "n \<le> length s" "take n s = replicate n SP" "drop n s = rest"
      using s by simp_all
    then have "run [SP] s 0 n" "line_tail s n"
      using rest run_slice [of 0 n s "[SP]"] by (auto simp add: slice_def line_tail_drop)
    then show "\<exists>j. run [SP] s 0 j \<and> line_tail s j" by blast
  qed
  finally show ?thesis .
qed

lemma marker_at_bound: "marker_at s j k \<Longrightarrow> j < k \<and> k \<le> length s"
  by (auto simp: marker_at_def)

lemma set_ends_marker:
  assumes "j \<le> length s"
  shows "set (ends (Alt (Chars ''-*+'') (Seq (Plus (Chars digits)) (Chars ''.)''))) s (j, c)) =
           {(k, c) | k. marker_at s j k}"
proof -
  have "set (ends (Alt (Chars ''-*+'') (Seq (Plus (Chars digits)) (Chars ''.)''))) s (j, c)) =
      set (ends (Chars ''-*+'') s (j, c)) \<union>
      (\<Union>st' \<in> {(d, c) | d. j < d \<and> run digits s j d}. set (ends (Chars ''.)'') s st'))"
    unfolding ends.simps(6) set_append set_ends_Seq set_ends_Plus_Chars [OF assms] ..
  also have "\<dots> = {(k, c) | k. marker_at s j k}"
    unfolding marker_at_def by (auto split: if_splits)
  finally show ?thesis .
qed

lemma set_ends_Group_Star:
  assumes "i \<le> length s"
  shows "set (ends (Group g (Star (Chars cs))) s (i, c)) = {(j, c(g \<mapsto> (i, j))) | j. run cs s i j}"
proof -
  have "set (ends (Group g (Star (Chars cs))) s (i, c)) =
      (\<lambda>(j, c'). (j, c'(g \<mapsto> (i, j)))) ` set (ends (Star (Chars cs)) s (i, c))"
    unfolding ends.simps(8) set_map ..
  then show ?thesis unfolding set_ends_Star_Chars [OF assms] by auto
qed

lemma UN_param: "(\<Union>st' \<in> {(j, f j) | j. R j}. G st') = (\<Union>j \<in> Collect R. G (j, f j))"
  by auto

lemma listLineStartRE_at:
  "set (ends listLineStartRE s (p, c)) =
     {(length s, c(1 \<mapsto> (i, j))) | i j k. list_parse s p i j k}"
proof -
  let ?marker = "Alt (Chars ''-*+'') (Seq (Plus (Chars digits)) (Chars ''.)''))"
  let ?spaces = "Seq (Plus (Chars [SP])) Eol"
  let ?indent = "Group 1 (Star (Chars [SP, TAB]))"
  have tail: "set (ends (Seq ?marker ?spaces) s (j, c')) =
      {(length s, c') | k. marker_at s j k \<and> k < length s \<and> run [SP] s k (length s)}"
    if "j \<le> length s" for j c'
  proof -
    have "set (ends (Seq ?marker ?spaces) s (j, c')) =
        (\<Union>k \<in> {k. marker_at s j k}. set (ends ?spaces s (k, c')))"
      unfolding set_ends_Seq [of "Alt _ _"] set_ends_marker [OF that] UN_param ..
    also have "\<dots> = (\<Union>k \<in> {k. marker_at s j k}.
        (if k < length s \<and> run [SP] s k (length s) then {(length s, c')} else {}))"
      by (rule SUP_cong [OF refl]) (use marker_at_bound in \<open>simp only: set_ends_Plus_Eol mem_Collect_eq\<close>)
    also have "\<dots> = {(length s, c') | k. marker_at s j k \<and> k < length s \<and> run [SP] s k (length s)}"
      by (auto split: if_splits)
    finally show ?thesis .
  qed
  have mid: "set (ends (Seq ?indent (Seq ?marker ?spaces)) s (i, c)) =
      {(length s, c(1 \<mapsto> (i, j))) | j k. run [SP, TAB] s i j \<and> marker_at s j k
          \<and> k < length s \<and> run [SP] s k (length s)}"
    if "i \<le> length s" for i
  proof -
    have "set (ends (Seq ?indent (Seq ?marker ?spaces)) s (i, c)) =
       (\<Union>j \<in> {j. run [SP, TAB] s i j}. set (ends (Seq ?marker ?spaces) s (j, c(1 \<mapsto> (i, j)))))"
      unfolding set_ends_Seq [of "Group _ _"] set_ends_Group_Star [OF that] UN_param ..
    also have "\<dots> = (\<Union>j \<in> {j. run [SP, TAB] s i j}.
        {(length s, c(1 \<mapsto> (i, j))) | k. marker_at s j k \<and> k < length s \<and> run [SP] s k (length s)})"
      by (rule SUP_cong [OF refl]) (use run_bound [OF _ that] in \<open>simp only: tail mem_Collect_eq\<close>)
    also have "\<dots> = {(length s, c(1 \<mapsto> (i, j))) | j k. run [SP, TAB] s i j \<and> marker_at s j k
          \<and> k < length s \<and> run [SP] s k (length s)}"
      by blast
    finally show ?thesis .
  qed
  have "set (ends listLineStartRE s (p, c)) =
      (\<Union>i \<in> {i. line_start s p i}. set (ends (Seq ?indent (Seq ?marker ?spaces)) s (i, c)))"
    unfolding listLineStartRE_def set_ends_Seq [of "Alt Bol _"] set_ends_line_start UN_param ..
  also have "\<dots> = (\<Union>i \<in> {i. line_start s p i}.
      {(length s, c(1 \<mapsto> (i, j))) | j k. run [SP, TAB] s i j \<and> marker_at s j k
          \<and> k < length s \<and> run [SP] s k (length s)})"
    by (rule SUP_cong [OF refl]) (use line_start_bound in \<open>simp only: mid mem_Collect_eq\<close>)
  also have "\<dots> = {(length s, c(1 \<mapsto> (i, j))) | i j k. list_parse s p i j k}"
    unfolding list_parse_def by blast
  finally show ?thesis .
qed

lemma slice_single: "j < length s \<Longrightarrow> slice s j (Suc j) = [s ! j]"
  by (simp add: slice_def take_Suc_conv_app_nth)

lemma marker_at_slice:
  assumes "marker_at s j k"
  shows "is_list_marker (slice s j k)"
proof -
  from assms consider
      (bullet) "j < length s" "s ! j \<in> set ''-*+''" "k = Suc j"
    | (number) d where "j < d" "run digits s j d" "d < length s" "s ! d \<in> set ''.)''" "k = Suc d"
    unfolding marker_at_def by blast
  then show ?thesis
  proof cases
    case bullet
    then have "slice s j k = [s ! j]" by (simp add: slice_single)
    with bullet(2) show ?thesis by (auto simp: is_list_marker_def)
  next
    case number
    have "slice s j k = slice s j d @ slice s d (Suc d)"
      unfolding number(5) by (rule slice_append) (use number in simp_all)
    then have 1: "slice s j k = slice s j d @ [s ! d]"
      using number(3) by (simp add: slice_single)
    have 2: "set (slice s j d) \<subseteq> set digits"
      using number run_slice [of j d s digits] by simp
    have "length (slice s j d) = d - j" using number(3) by (simp add: length_slice)
    then have 3: "slice s j d \<noteq> []" using number(1) by auto
    from number(4) have 4: "s ! d = CHR ''.'' \<or> s ! d = CHR '')''" by simp
    show ?thesis unfolding is_list_marker_def using 1 2 3 4 by blast
  qed
qed

lemma list_parse_parts:
  assumes "list_parse s p i j k" and "p \<le> length s"
  shows "list_item_parts s (take i s) (slice s i j) (slice s j k) (length s - k - 1)"
proof -
  from assms(1) have ls: "line_start s p i" and ws: "run [SP, TAB] s i j"
    and mk: "marker_at s j k" and k: "k < length s" and sp: "run [SP] s k (length s)"
    unfolding list_parse_def by auto
  have ij: "i \<le> j" using ws by (simp add: run_def)
  have jk: "j < k" "k \<le> length s" using marker_at_bound [OF mk] by auto
  have "slice s 0 (length s) = slice s 0 i @ slice s i (length s)"
    by (rule slice_append) (use ij jk in simp_all)
  also have "slice s i (length s) = slice s i j @ slice s j (length s)"
    by (rule slice_append) (use ij jk in simp_all)
  also have "slice s j (length s) = slice s j k @ slice s k (length s)"
    by (rule slice_append) (use jk in simp_all)
  finally have split: "s = take i s @ slice s i j @ slice s j k @ slice s k (length s)"
    by (simp add: slice_full) (simp add: slice_def)
  have "set (slice s k (length s)) \<subseteq> {SP}"
    using sp run_slice [of k "length s" s "[SP]"] jk by simp
  then have "slice s k (length s) = replicate (length s - k) SP"
    using all_spaces [of "slice s k (length s)"] by (simp add: length_slice)
  moreover have "length s - k = Suc (length s - k - 1)" using k by simp
  ultimately have spaces: "slice s k (length s) = replicate (Suc (length s - k - 1)) SP"
    by (simp only:)
  have pre: "take i s = [] \<or> last (take i s) = LF"
    using line_start_split [of s i] ls assms(2) by blast
  have ind: "set (slice s i j) \<subseteq> {SP, TAB}"
    using ws run_slice [of i j s "[SP, TAB]"] ij jk by simp
  show ?thesis
    unfolding list_item_parts_def
  proof (intro conjI)
    show "s = take i s @ slice s i j @ slice s j k @ replicate (Suc (length s - k - 1)) SP"
      using split unfolding spaces .
    show "take i s = [] \<or> last (take i s) = LF" by (rule pre)
    show "set (slice s i j) \<subseteq> {SP, TAB}" by (rule ind)
    show "is_list_marker (slice s j k)" by (rule marker_at_slice [OF mk])
  qed
qed

lemma slice_mid: "slice (a @ b @ c) (length a) (length a + length b) = b"
  by (simp add: slice_def)

lemma nth_mid: "(a @ x # c) ! length a = x"
  by simp

lemma is_list_marker_at:
  assumes "is_list_marker marker" and "s = a @ marker @ c"
  shows "marker_at s (length a) (length a + length marker)"
proof -
  from assms(1) consider
      (bullet) x where "marker = [x]" "x \<in> set ''-*+''"
    | (number) ds x where "marker = ds @ [x]" "ds \<noteq> []" "set ds \<subseteq> set digits"
        "x = CHR ''.'' \<or> x = CHR '')''"
    unfolding is_list_marker_def by auto
  then show ?thesis
  proof cases
    case bullet
    have "s = a @ x # c" using assms(2) bullet(1) by simp
    then have "length a < length s" "s ! length a = x" by simp_all
    with bullet show ?thesis unfolding marker_at_def by simp
  next
    case number
    let ?d = "length a + length ds"
    have s: "s = a @ ds @ (x # c)" using assms(2) number(1) by simp
    have d: "?d < length s" using s by simp
    have "slice s (length a) ?d = ds" unfolding s by (rule slice_mid)
    then have 1: "run digits s (length a) ?d"
      using run_slice [of "length a" ?d s digits] number(3) d by simp
    have "s = (a @ ds) @ x # c" using s by simp
    then have "s ! length (a @ ds) = x" by (simp only: nth_mid)
    then have 2: "s ! ?d = x" by simp
    have 3: "length a < ?d" using number(2) by simp
    have 4: "x \<in> set ''.)''" using number(4) by auto
    have 5: "length a + length marker = Suc ?d" using number(1) by simp
    show ?thesis unfolding marker_at_def using 1 2 3 4 5 d by blast
  qed
qed

lemma list_parts_parse:
  assumes "list_item_parts s pre ind marker n"
  shows "\<exists>p \<le> length s. list_parse s p (length pre) (length pre + length ind)
            (length pre + length ind + length marker)"
proof -
  let ?i = "length pre" and ?j = "length pre + length ind"
  let ?k = "length pre + length ind + length marker"
  from assms have s: "s = pre @ ind @ marker @ replicate (Suc n) SP"
    and pre: "pre = [] \<or> last pre = LF" and ind: "set ind \<subseteq> {SP, TAB}"
    and mk: "is_list_marker marker"
    unfolding list_item_parts_def by auto
  have "take ?i s = pre" using s by simp
  then obtain p where p: "p \<le> length s" "line_start s p ?i"
    using line_start_split [of s ?i] pre s by auto
  have "slice s ?i ?j = ind" unfolding s by (rule slice_mid)
  then have ws: "run [SP, TAB] s ?i ?j"
    using run_slice [of ?i ?j s "[SP, TAB]"] ind s by simp
  have "marker_at s (length (pre @ ind)) (length (pre @ ind) + length marker)"
    by (rule is_list_marker_at [OF mk]) (simp add: s)
  then have m: "marker_at s ?j ?k" by simp
  have k: "?k < length s" using s by simp
  have "slice s ?k (length s) = replicate (Suc n) SP"
    unfolding slice_to_end using s by simp
  then have sp: "run [SP] s ?k (length s)"
    using run_slice [of ?k "length s" s "[SP]"] k by auto
  show ?thesis using p ws m k sp unfolding list_parse_def by blast
qed

lemma string_match_listLineStartRE:
  assumes "string_match listLineStartRE s = Some m"
  shows "\<exists>p i j k. p \<le> length s \<and> list_parse s p i j k \<and> snd (snd m) 1 = Some (i, j)"
proof -
  from assms obtain p where
    f: "List.find (\<lambda>p. ends listLineStartRE s (p, Map.empty) \<noteq> []) [0 ..< Suc (length s)] = Some p"
    and m: "m = (p, hd (ends listLineStartRE s (p, Map.empty)))"
    unfolding string_match_def regex_search_def by (auto split: option.splits)
  from find_SomeD [OF f] have ne: "ends listLineStartRE s (p, Map.empty) \<noteq> []"
    and p: "p \<le> length s" by auto
  from ne have "hd (ends listLineStartRE s (p, Map.empty)) \<in> set (ends listLineStartRE s (p, Map.empty))"
    by (rule hd_in_set)
  then obtain i j k where "list_parse s p i j k"
    "hd (ends listLineStartRE s (p, Map.empty)) = (length s, Map.empty(1 \<mapsto> (i, j)))"
    unfolding listLineStartRE_at by blast
  with m p show ?thesis by auto
qed

lemma listLineStartRE_match_iff:
  "string_match listLineStartRE s \<noteq> None \<longleftrightarrow> list_item_start s"
proof
  assume "string_match listLineStartRE s \<noteq> None"
  then obtain m where "string_match listLineStartRE s = Some m" by blast
  from string_match_listLineStartRE [OF this] list_parse_parts
  show "list_item_start s" unfolding list_item_start_def by blast
next
  assume "list_item_start s"
  then obtain pre ind marker n where "list_item_parts s pre ind marker n"
    unfolding list_item_start_def by blast
  from list_parts_parse [OF this] obtain p i j k where "p \<le> length s" "list_parse s p i j k"
    by blast
  then have "set (ends listLineStartRE s (p, Map.empty)) \<noteq> {}"
    unfolding listLineStartRE_at by blast
  then have "regex_test listLineStartRE s"
    unfolding regex_test_iff using \<open>p \<le> length s\<close> by auto
  then show "string_match listLineStartRE s \<noteq> None"
    by (simp add: regex_test_def string_match_def)
qed

lemma listLineStartRE_group:
  assumes "string_match listLineStartRE s = Some m"
  shows "\<exists>pre marker n. list_item_parts s pre (group_text s m 1) marker n"
proof -
  from string_match_listLineStartRE [OF assms] obtain p i j k where
    *: "p \<le> length s" "list_parse s p i j k" "snd (snd m) 1 = Some (i, j)" by blast
  then have "group_text s m 1 = slice s i j"
    by (simp add: group_text_def slice_def)
  with list_parse_parts [OF *(2,1)] show ?thesis by auto
qed

section \<open>One round of the loop\<close>

lemma process_target_hidden:
  assumes "\<not> bakeHidden settings" and "within_hidden hiddenRegions target"
  shows "process_target recurse lib app file settings hiddenRegions newAncestors target state
           = Some (Inr state)"
  using assms by (simp add: process_target_def split: prod.splits)

lemma process_target_unresolved:
  assumes "parseLinktext lib (link target) = (p, sp)"
    and "getFirstLinkpathDest app p (path file) = None"
  shows "process_target recurse lib app file settings hiddenRegions newAncestors target state
           = Some (Inr state)"
  using assms by (simp add: process_target_def Let_def split: prod.splits)

lemma process_target_not_md_skip:
  assumes "parseLinktext lib (link target) = (p, sp)"
    and "getFirstLinkpathDest app p (path file) = Some linkedFile"
    and "extension linkedFile \<noteq> ''md''"
    and "\<not> convertFileLinks settings \<or> getFullPath app = None"
  shows "process_target recurse lib app file settings hiddenRegions newAncestors target state
           = Some (Inr state)"
  using assms by (auto simp add: process_target_def Let_def split: prod.splits)

lemma process_target_text:
  assumes "bakeHidden settings \<or> \<not> within_hidden hiddenRegions target"
    and "adjusted settings hiddenRegions target = (adjustedStart, adjustedEnd)"
    and "parseLinktext lib (link target) = (p, sp)"
    and "getFirstLinkpathDest app p (path file) = Some linkedFile"
    and "extension linkedFile = ''md''"
    and "linkedFile \<in> newAncestors
         \<or> isInline settings (substring text 0 (adjustedStart + posOffset))
                               (substring_from text (adjustedEnd + posOffset))"
  shows "process_target recurse lib app file settings hiddenRegions newAncestors target
           (text, posOffset)
         = Some (Inr (substring text 0 (adjustedStart + posOffset) @ text_of_target target p
                        @ substring_from text (adjustedEnd + posOffset),
                      posOffset + (int (length (text_of_target target p))
                                    - (adjustedEnd - adjustedStart))))"
  using assms by (auto simp add: process_target_def Let_def replaceTarget_def split: prod.splits)

lemma hidden_offset_acc:
  "hidden_offset regions s off = off + hidden_offset regions s 0"
proof (induction regions arbitrary: off)
  case Nil show ?case by simp
next
  case (Cons r rs)
  show ?case using Cons.IH [of "off + (region_end r - region_start r)"] Cons.IH [of "region_end r - region_start r"]
    by simp
qed

lemma hidden_offset_sum:
  "hidden_offset regions s 0 =
     sum_list (map (\<lambda>r. region_end r - region_start r)
                 (takeWhile (\<lambda>r. region_start r < s) regions))"
proof (induction regions)
  case Nil show ?case by simp
next
  case (Cons r rs)
  then show ?case using hidden_offset_acc [of rs s "region_end r - region_start r"] by simp
qed

section \<open>Where the recursive call is used\<close>

lemma process_target_cong:
  assumes "\<And>f sp. f \<notin> newAncestors \<Longrightarrow> resolvable app file f
             \<Longrightarrow> r1 f sp newAncestors = r2 f sp newAncestors"
  shows "process_target r1 lib app file settings hiddenRegions newAncestors target state =
         process_target r2 lib app file settings hiddenRegions newAncestors target state"
proof -
  obtain p sp where parse: "parseLinktext lib (link target) = (p, sp)"
    by (cases "parseLinktext lib (link target)")
  show ?thesis
  proof (cases "getFirstLinkpathDest app p (path file)")
    case None
    then show ?thesis
      using parse by (simp add: process_target_def Let_def split: prod.splits)
  next
    case (Some f)
    show ?thesis
    proof (cases "f \<in> newAncestors")
      case True
      then show ?thesis
        using parse Some by (simp add: process_target_def Let_def split: prod.splits)
    next
      case False
      have "resolvable app file f" using Some unfolding resolvable_def by blast
      from assms [OF False this]
      have "r1 f (Some sp) newAncestors = r2 f (Some sp) newAncestors" .
      then show ?thesis
        using parse Some by (simp add: process_target_def Let_def split: prod.splits)
    qed
  qed
qed

lemma process_target_None:
  assumes "process_target r lib app file settings hiddenRegions newAncestors target state = None"
  shows "\<exists>f sp. f \<notin> newAncestors \<and> resolvable app file f \<and> r f sp newAncestors = None"
proof -
  obtain p sp where parse: "parseLinktext lib (link target) = (p, sp)"
    by (cases "parseLinktext lib (link target)")
  show ?thesis
  proof (cases "getFirstLinkpathDest app p (path file)")
    case None
    then show ?thesis
      using parse assms by (simp add: process_target_def Let_def split: prod.splits if_splits)
  next
    case (Some f)
    then have res: "resolvable app file f" unfolding resolvable_def by blast
    have "f \<notin> newAncestors \<and> r f (Some sp) newAncestors = None"
      using parse Some assms
      by (auto simp add: process_target_def Let_def
          split: prod.splits if_splits option.splits sum.splits)
    with res show ?thesis by blast
  qed
qed

lemma process_targets_cong:
  assumes "\<And>f sp. f \<notin> newAncestors \<Longrightarrow> resolvable app file f
             \<Longrightarrow> r1 f sp newAncestors = r2 f sp newAncestors"
  shows "process_targets r1 lib app file settings hiddenRegions newAncestors targets state =
         process_targets r2 lib app file settings hiddenRegions newAncestors targets state"
proof -
  have one: "process_target r1 lib app file settings hiddenRegions newAncestors t st =
      process_target r2 lib app file settings hiddenRegions newAncestors t st" for t st
    by (rule process_target_cong) (fact assms)
  show ?thesis
    by (induction targets arbitrary: state) (simp_all add: one split: option.splits sum.splits)
qed

lemma process_targets_None:
  assumes "process_targets r lib app file settings hiddenRegions newAncestors targets state = None"
  shows "\<exists>f sp. f \<notin> newAncestors \<and> resolvable app file f \<and> r f sp newAncestors = None"
  using assms
proof (induction targets arbitrary: state)
  case Nil
  then show ?case by simp
next
  case (Cons t ts)
  then show ?case
    using process_target_None [of r lib app "file" settings hiddenRegions newAncestors t state]
    by (auto split: option.splits sum.splits)
qed

lemma bake_body_cong:
  assumes "\<And>f sp. f \<notin> insert file ancestors \<Longrightarrow> resolvable app file f
             \<Longrightarrow> r1 f sp (insert file ancestors) = r2 f sp (insert file ancestors)"
  shows "bake_body r1 lib app file subpath ancestors settings =
         bake_body r2 lib app file subpath ancestors settings"
proof -
  have all: "process_targets r1 lib app file settings hr (insert file ancestors) ts st =
      process_targets r2 lib app file settings hr (insert file ancestors) ts st" for hr ts st
    by (rule process_targets_cong) (fact assms)
  show ?thesis
    unfolding bake_body_def by (simp add: all Let_def split: option.splits)
qed

lemma bake_body_None:
  assumes "bake_body r lib app file subpath ancestors settings = None"
  shows "\<exists>f sp. f \<notin> insert file ancestors \<and> resolvable app file f
           \<and> r f sp (insert file ancestors) = None"
  using assms unfolding bake_body_def Let_def
  using process_targets_None [of r lib app "file" settings _ "insert file ancestors"]
  by (auto split: option.splits sum.splits if_splits prod.splits)

lemma bake_enough_fuel:
  assumes "finite V" and "\<And>p q f. getFirstLinkpathDest app p q = Some f \<Longrightarrow> f \<in> V"
  shows "card (V - insert file ancestors) < n \<Longrightarrow> n \<le> m \<Longrightarrow>
         bake n lib app file subpath ancestors settings \<noteq> None
         \<and> bake m lib app file subpath ancestors settings
             = bake n lib app file subpath ancestors settings"
proof (induction n arbitrary: m "file" subpath ancestors)
  case 0
  then show ?case by simp
next
  case (Suc n)
  then obtain m' where m: "m = Suc m'" "n \<le> m'" by (cases m) auto
  have step: "bake n lib app f sp (insert file ancestors) settings \<noteq> None
       \<and> bake m' lib app f sp (insert file ancestors) settings
          = bake n lib app f sp (insert file ancestors) settings"
    if "f \<notin> insert file ancestors" "resolvable app file f" for f sp
  proof -
    from that(2) have "f \<in> V" using assms(2) unfolding resolvable_def by blast
    with that(1) have "f \<in> V - insert file ancestors" by simp
    then have "card (V - insert f (insert file ancestors)) < card (V - insert file ancestors)"
      using assms(1)
      by (metis Diff_insert card_Diff1_less finite_Diff)
    with Suc.prems(1) have "card (V - insert f (insert file ancestors)) < n" by simp
    from Suc.IH [OF this m(2)] show ?thesis .
  qed
  have eq: "bake (Suc m') lib app file subpath ancestors settings
          = bake (Suc n) lib app file subpath ancestors settings"
    unfolding bake.simps(2) by (rule bake_body_cong) (use step in auto)
  have "bake (Suc n) lib app file subpath ancestors settings \<noteq> None"
  proof
    assume "bake (Suc n) lib app file subpath ancestors settings = None"
    from bake_body_None [OF this [unfolded bake.simps(2)]] step show False by blast
  qed
  with eq m show ?case by simp
qed

section \<open>Hidden regions: the example of the specification\<close>

lemma hidden_example_regions:
  "find_hidden_regions ''A%%hidden%%B%%/hidden%%C'' 0 [] =
     [\<lparr>region_start = 1, region_end = 24\<rparr>]"
  by code_simp

lemma hidden_example_removed:
  "remove_hidden [\<lparr>region_start = 1, region_end = 24\<rparr>] ''A%%hidden%%B%%/hidden%%C'' = ''A''"
  by (simp add: remove_hidden_def remove_region_def substring_def substring_from_def
      clamp_index_def)

lemma bake_no_cache:
  assumes "cachedRead app file = Some text0" and "getFileCache app file = None"
  shows "bake (Suc n) lib app file subpath ancestors settings =
           Some (Inr (filter_hidden settings text0))"
  using assms by (simp add: bake_body_def bake.simps(2))

lemma bake_no_targets:
  assumes "cachedRead app file = Some text0" and "getFileCache app file = Some cache"
    and "targets_of settings cache = []"
  shows "bake (Suc n) lib app file None ancestors settings =
           Some (Inr (filter_hidden settings text0))"
  using assms by (simp add: bake_body_def bake.simps(2))

text \<open>
  Claim C2. The specification expects \<^verbatim>\<open>"AC"\<close> for the text
  \<^verbatim>\<open>"A%%hidden%%B%%/hidden%%C"\<close> with \<^verbatim>\<open>bakeHidden\<close> off and no references. The code
  returns \<^verbatim>\<open>"A"\<close>: the end marker \<^verbatim>\<open>%%/hidden%%\<close> has 11 characters and starts at
  offset 12, and line 47 adds 12 to that offset, so the region is \<open>[1, 24)\<close> and takes the
  \<^verbatim>\<open>C\<close> behind the marker with it. The theorem is the run of the code on that text,
  whether the file has no cache entry or one without references.
\<close>

theorem bake_hidden_example:
  assumes "cachedRead app file = Some ''A%%hidden%%B%%/hidden%%C''"
    and "\<not> bakeHidden settings"
    and "case getFileCache app file of
           None \<Rightarrow> True
         | Some cache \<Rightarrow> targets_of settings cache = []"
  shows "bake (Suc n) lib app file None ancestors settings = Some (Inr ''A'')"
proof -
  have f: "filter_hidden settings ''A%%hidden%%B%%/hidden%%C'' = ''A''"
    using assms(2)
    by (simp add: filter_hidden_def hidden_regions_of_def hidden_example_regions
        hidden_example_removed)
  show ?thesis
  proof (cases "getFileCache app file")
    case None
    then show ?thesis
      using bake_no_cache [OF assms(1) None, of n lib None ancestors settings] f by simp
  next
    case (Some cache)
    then show ?thesis
      using bake_no_targets [OF assms(1) Some, of settings n lib ancestors] assms(3) f
      by simp
  qed
qed

theorem bake_hidden_example_witness:
  "bake 1 plain_lib hidden_vault host_md None {} settings_strip = Some (Inr ''A'')
   \<and> bake 1 plain_lib hidden_vault host_md None {} settings_strip \<noteq> Some (Inr ''AC'')"
proof -
  have "bake (Suc 0) plain_lib hidden_vault host_md None {} settings_strip = Some (Inr ''A'')"
    by (rule bake_hidden_example)
      (simp_all add: hidden_vault_def settings_strip_def settings_all_def targets_of_def)
  then show ?thesis by simp
qed

section \<open>A file without a cache entry\<close>

text \<open>
  Claim C8. When the metadata cache has no entry for the file (\<^verbatim>\<open>getFileCache\<close> returns
  null), \<^verbatim>\<open>bake\<close> returns what it read, with the hidden regions cut out when
  \<^verbatim>\<open>bakeHidden\<close> is off and untouched when it is on. The result depends neither on the
  subpath nor on anything a reference would need: no subpath is resolved and no
  reference is processed.
\<close>

theorem bake_without_cache:
  assumes "cachedRead app file = Some text0"
    and "getFileCache app file = None"
  shows "bake (Suc n) lib app file subpath ancestors settings =
           Some (Inr (if bakeHidden settings then text0
                      else remove_hidden (find_hidden_regions text0 0 []) text0))"
  using assms
  by (simp add: bake_body_def bake.simps(2) filter_hidden_def hidden_regions_of_def)

theorem bake_without_cache_witness:
  "bake 1 plain_lib uncached_vault host_md (Some ''#Heading'') {} settings_all =
     Some (Inr ''See [[Note]] here.'')"
  using bake_without_cache [of uncached_vault host_md "''See [[Note]] here.''" 0 plain_lib
      "Some ''#Heading''" "{}" settings_all]
  by (simp add: uncached_vault_def settings_all_def)

section \<open>Offsets behind hidden regions\<close>

text \<open>
  Claim C1. With \<^verbatim>\<open>bakeHidden\<close> off, the regions found in the text that was read are in
  ascending order of their start; the amount taken from both offsets of a reference is the
  sum of the lengths \<^verbatim>\<open>end - start\<close> of the regions before the first one whose start is
  not less than the start of the reference; and a reference whose offsets, as the cache
  gives them, lie within one region is skipped: text and position offset stay as they
  are.
\<close>

theorem offset_remapping:
  assumes "\<not> bakeHidden settings"
    and "hiddenRegions = hidden_regions_of settings text0"
  shows "sorted_wrt (\<lambda>a b. region_start a < region_start b) hiddenRegions
   \<and> adjusted settings hiddenRegions target =
        (position_start_offset target
           - sum_list (map (\<lambda>r. region_end r - region_start r)
               (takeWhile (\<lambda>r. region_start r < position_start_offset target) hiddenRegions)),
         position_end_offset target
           - sum_list (map (\<lambda>r. region_end r - region_start r)
               (takeWhile (\<lambda>r. region_start r < position_start_offset target) hiddenRegions)))
   \<and> ((\<exists>r \<in> set hiddenRegions. region_start r \<le> position_start_offset target
                                  \<and> position_end_offset target \<le> region_end r)
        \<longrightarrow> process_target recurse lib app file settings hiddenRegions newAncestors target state
              = Some (Inr state))"
proof (intro conjI impI)
  have "sorted_wrt (\<lambda>a b. region_start a + 10 \<le> region_start b) (find_hidden_regions text0 0 [])"
    by (rule find_hidden_regions_sorted)
  then have "sorted_wrt (\<lambda>a b. region_start a < region_start b) (find_hidden_regions text0 0 [])"
    by (rule sorted_wrt_weaken) simp
  then show "sorted_wrt (\<lambda>a b. region_start a < region_start b) hiddenRegions"
    using assms by (simp add: hidden_regions_of_def)
  show "adjusted settings hiddenRegions target =
        (position_start_offset target
           - sum_list (map (\<lambda>r. region_end r - region_start r)
               (takeWhile (\<lambda>r. region_start r < position_start_offset target) hiddenRegions)),
         position_end_offset target
           - sum_list (map (\<lambda>r. region_end r - region_start r)
               (takeWhile (\<lambda>r. region_start r < position_start_offset target) hiddenRegions)))"
    using assms(1) by (simp add: adjusted_def Let_def hidden_offset_sum)
  assume "\<exists>r \<in> set hiddenRegions. region_start r \<le> position_start_offset target
                                  \<and> position_end_offset target \<le> region_end r"
  then have "within_hidden hiddenRegions target"
    by (auto simp: within_hidden_def list_ex_iff)
  then show "process_target recurse lib app file settings hiddenRegions newAncestors target state
              = Some (Inr state)"
    using assms(1) by (rule process_target_hidden [rotated])
qed

lemma two_refs_regions:
  "find_hidden_regions ''x%%hidden%%[[Note]]%%/hidden%% [[Note]] y'' 0 [] =
     [\<lparr>region_start = 1, region_end = 31\<rparr>]"
  by code_simp

theorem offset_remapping_witness:
  "adjusted settings_strip [\<lparr>region_start = 1, region_end = 31\<rparr>] (ref ''Note'' None 31 39)
     = (1, 9)
   \<and> process_target (\<lambda>f sp anc. None) plain_lib
        (note_vault ''x%%hidden%%[[Note]]%%/hidden%% [[Note]] y'' []) host_md settings_strip
        [\<lparr>region_start = 1, region_end = 31\<rparr>] {host_md} (ref ''Note'' None 11 19)
        (''x[[Note]] y'', 0)
     = Some (Inr (''x[[Note]] y'', 0))"
proof -
  have s: "\<not> bakeHidden settings_strip"
    by (simp add: settings_strip_def settings_all_def)
  have r: "[\<lparr>region_start = 1, region_end = 31\<rparr>] =
      hidden_regions_of settings_strip ''x%%hidden%%[[Note]]%%/hidden%% [[Note]] y''"
    using s by (simp add: hidden_regions_of_def two_refs_regions)
  from offset_remapping [OF s r, of "ref ''Note'' None 31 39"]
  have 1: "adjusted settings_strip [\<lparr>region_start = 1, region_end = 31\<rparr>]
      (ref ''Note'' None 31 39) = (1, 9)"
    by (simp add: ref_def)
  from offset_remapping [OF s r, of "ref ''Note'' None 11 19" "\<lambda>f sp anc. None" plain_lib
      "note_vault ''x%%hidden%%[[Note]]%%/hidden%% [[Note]] y'' []" host_md "{host_md}"
      "(''x[[Note]] y'', 0)"]
  have 2: "process_target (\<lambda>f sp anc. None) plain_lib
        (note_vault ''x%%hidden%%[[Note]]%%/hidden%% [[Note]] y'' []) host_md settings_strip
        [\<lparr>region_start = 1, region_end = 31\<rparr>] {host_md} (ref ''Note'' None 11 19)
        (''x[[Note]] y'', 0)
     = Some (Inr (''x[[Note]] y'', 0))"
    by (simp add: ref_def)
  from 1 2 show ?thesis by simp
qed

section \<open>The regions of the scan\<close>

text \<open>
  Claim C3 does not hold as the specification words it. It has the regions never
  overlap, the scan for the next start marker
  resuming behind the end of the region before, and an unmatched start marker staying in
  the output. The scan of line 42 resumes behind the start marker it has just found, not
  behind the region: two start markers before one end marker give two regions that end at
  the same place, and cutting both out takes text that lies behind them. A start marker
  that follows a region at once is not left in place either.
\<close>

theorem hidden_regions_overlap:
  "find_hidden_regions ''%%hidden%%a%%hidden%%b%%/hidden%%cdefgh'' 0 [] =
     [\<lparr>region_start = 0, region_end = 34\<rparr>, \<lparr>region_start = 11, region_end = 34\<rparr>]
   \<and> \<not> sorted_wrt (\<lambda>a b. region_end a \<le> region_start b)
         (find_hidden_regions ''%%hidden%%a%%hidden%%b%%/hidden%%cdefgh'' 0 [])
   \<and> filter_hidden settings_strip ''%%hidden%%a%%hidden%%b%%/hidden%%cdefgh'' = ''''
   \<and> find_hidden_regions ''%%hidden%%a%%/hidden%%%%hidden%%c'' 0 [] =
        [\<lparr>region_start = 0, region_end = 23\<rparr>]
   \<and> filter_hidden settings_strip ''%%hidden%%a%%/hidden%%%%hidden%%c'' = ''%hidden%%c''"
proof -
  have 1: "find_hidden_regions ''%%hidden%%a%%hidden%%b%%/hidden%%cdefgh'' 0 [] =
     [\<lparr>region_start = 0, region_end = 34\<rparr>, \<lparr>region_start = 11, region_end = 34\<rparr>]"
    by code_simp
  have 2: "find_hidden_regions ''%%hidden%%a%%/hidden%%%%hidden%%c'' 0 [] =
        [\<lparr>region_start = 0, region_end = 23\<rparr>]"
    by code_simp
  have s: "\<not> bakeHidden settings_strip"
    by (simp add: settings_strip_def settings_all_def)
  have 3: "filter_hidden settings_strip ''%%hidden%%a%%hidden%%b%%/hidden%%cdefgh'' = ''''"
    using s by (simp add: filter_hidden_def hidden_regions_of_def 1 remove_hidden_def
        remove_region_def substring_def substring_from_def clamp_index_def)
  have 4: "filter_hidden settings_strip ''%%hidden%%a%%/hidden%%%%hidden%%c'' = ''%hidden%%c''"
    using s by (simp add: filter_hidden_def hidden_regions_of_def 2 remove_hidden_def
        remove_region_def substring_def substring_from_def clamp_index_def)
  show ?thesis unfolding 3 4 unfolding 1 2 by simp
qed

text \<open>
  Claim C3, as the code has it. With \<^verbatim>\<open>bakeHidden\<close> off, the regions come in ascending
  order, their starts at least the length of a start marker apart; each region starts at
  a start marker and is paired with the first end marker that begins behind that start
  marker, reaching at least to the end of that end marker; and a start marker with no end
  marker behind it starts no region. The scan goes by these rules, from any offset \<open>li\<close>:
  with no start marker at or behind \<open>li\<close> there is no region; the first start marker at
  or behind \<open>li\<close>, at \<open>p\<close>, gives a region when an end marker begins at or behind
  \<open>p + 10\<close> and none otherwise; and in both cases the scan goes on from \<open>p + 10\<close>, right
  behind the start marker and not behind the region. So a second start marker before the
  end marker gives a second region, with the same end as the first and starting inside
  it.
\<close>

theorem hidden_regions_scan:
  "sorted_wrt (\<lambda>a b. region_start a + 10 \<le> region_start b) (find_hidden_regions text 0 [])
   \<and> (\<forall>r \<in> set (find_hidden_regions text 0 []).
        \<exists>p e. region_start r = int p \<and> occurs_at ''%%hidden%%'' text p
          \<and> p + 10 \<le> e \<and> occurs_at ''%%/hidden%%'' text e
          \<and> (\<forall>e'. p + 10 \<le> e' \<and> e' < e \<longrightarrow> \<not> occurs_at ''%%/hidden%%'' text e')
          \<and> int e + 11 \<le> region_end r)
   \<and> (\<forall>p. (\<forall>e. p + 10 \<le> e \<longrightarrow> \<not> occurs_at ''%%/hidden%%'' text e)
          \<longrightarrow> int p \<notin> region_start ` set (find_hidden_regions text 0 []))
   \<and> ((\<forall>p. li \<le> p \<longrightarrow> \<not> occurs_at ''%%hidden%%'' text p)
          \<longrightarrow> find_hidden_regions text li [] = [])
   \<and> (\<forall>p. first_at ''%%hidden%%'' text li p
            \<and> (\<forall>e. p + 10 \<le> e \<longrightarrow> \<not> occurs_at ''%%/hidden%%'' text e)
          \<longrightarrow> find_hidden_regions text li [] = find_hidden_regions text (p + 10) [])
   \<and> (\<forall>p e. first_at ''%%hidden%%'' text li p \<and> first_at ''%%/hidden%%'' text (p + 10) e
          \<longrightarrow> (\<exists>r. region_start r = int p \<and> int e + 11 \<le> region_end r
                  \<and> find_hidden_regions text li [] = r # find_hidden_regions text (p + 10) []))
   \<and> (\<forall>p q e. first_at ''%%hidden%%'' text li p \<and> first_at ''%%hidden%%'' text (p + 10) q
              \<and> first_at ''%%/hidden%%'' text (p + 10) e \<and> q + 10 \<le> e
          \<longrightarrow> (\<exists>r1 r2. region_start r1 = int p \<and> region_start r2 = int q
                  \<and> int e + 11 \<le> region_end r1 \<and> region_end r2 = region_end r1
                  \<and> region_start r2 < region_end r1
                  \<and> find_hidden_regions text li [] =
                      r1 # r2 # find_hidden_regions text (q + 10) []))"
proof (intro conjI)
  show "sorted_wrt (\<lambda>a b. region_start a + 10 \<le> region_start b) (find_hidden_regions text 0 [])"
    by (rule find_hidden_regions_sorted)
  have pairs: "\<forall>r \<in> set (find_hidden_regions text 0 []). pairs_markers text 0 r"
    by (rule find_hidden_regions_pairs)
  show "\<forall>r \<in> set (find_hidden_regions text 0 []).
        \<exists>p e. region_start r = int p \<and> occurs_at ''%%hidden%%'' text p
          \<and> p + 10 \<le> e \<and> occurs_at ''%%/hidden%%'' text e
          \<and> (\<forall>e'. p + 10 \<le> e' \<and> e' < e \<longrightarrow> \<not> occurs_at ''%%/hidden%%'' text e')
          \<and> int e + 11 \<le> region_end r"
  proof
    fix r assume "r \<in> set (find_hidden_regions text 0 [])"
    with pairs have "pairs_markers text 0 r" by blast
    then obtain p e where "region_start r = int p" "occurs_at ''%%hidden%%'' text p"
      "p + 10 \<le> e" "occurs_at ''%%/hidden%%'' text e"
      "\<forall>e'. p + 10 \<le> e' \<and> e' < e \<longrightarrow> \<not> occurs_at ''%%/hidden%%'' text e'"
      "region_end r = int e + 12"
      unfolding pairs_markers_def by blast
    then show "\<exists>p e. region_start r = int p \<and> occurs_at ''%%hidden%%'' text p
          \<and> p + 10 \<le> e \<and> occurs_at ''%%/hidden%%'' text e
          \<and> (\<forall>e'. p + 10 \<le> e' \<and> e' < e \<longrightarrow> \<not> occurs_at ''%%/hidden%%'' text e')
          \<and> int e + 11 \<le> region_end r"
      by (intro exI [of _ p] exI [of _ e]) simp
  qed
  show "\<forall>p. (\<forall>e. p + 10 \<le> e \<longrightarrow> \<not> occurs_at ''%%/hidden%%'' text e)
          \<longrightarrow> int p \<notin> region_start ` set (find_hidden_regions text 0 [])"
  proof (intro allI impI notI)
    fix p assume no: "\<forall>e. p + 10 \<le> e \<longrightarrow> \<not> occurs_at ''%%/hidden%%'' text e"
      and "int p \<in> region_start ` set (find_hidden_regions text 0 [])"
    then obtain r where "r \<in> set (find_hidden_regions text 0 [])" "region_start r = int p"
      by auto
    with pairs have "pairs_markers text 0 r" by blast
    with \<open>region_start r = int p\<close> no show False
      unfolding pairs_markers_def by auto
  qed
  show "(\<forall>p. li \<le> p \<longrightarrow> \<not> occurs_at ''%%hidden%%'' text p)
          \<longrightarrow> find_hidden_regions text li [] = []"
    using scan_no_start by blast
  show "\<forall>p. first_at ''%%hidden%%'' text li p
            \<and> (\<forall>e. p + 10 \<le> e \<longrightarrow> \<not> occurs_at ''%%/hidden%%'' text e)
          \<longrightarrow> find_hidden_regions text li [] = find_hidden_regions text (p + 10) []"
    using scan_unmatched_start by blast
  show "\<forall>p e. first_at ''%%hidden%%'' text li p \<and> first_at ''%%/hidden%%'' text (p + 10) e
          \<longrightarrow> (\<exists>r. region_start r = int p \<and> int e + 11 \<le> region_end r
                  \<and> find_hidden_regions text li [] = r # find_hidden_regions text (p + 10) [])"
  proof (intro allI impI)
    fix p e
    assume a: "first_at ''%%hidden%%'' text li p \<and> first_at ''%%/hidden%%'' text (p + 10) e"
    then have "find_hidden_regions text li [] =
        \<lparr>region_start = int p, region_end = int e + 12\<rparr> # find_hidden_regions text (p + 10) []"
      by (intro scan_matched_start) simp_all
    then show "\<exists>r. region_start r = int p \<and> int e + 11 \<le> region_end r
                  \<and> find_hidden_regions text li [] = r # find_hidden_regions text (p + 10) []"
      by (intro exI [of _ "\<lparr>region_start = int p, region_end = int e + 12\<rparr>"]) simp
  qed
  show "\<forall>p q e. first_at ''%%hidden%%'' text li p \<and> first_at ''%%hidden%%'' text (p + 10) q
              \<and> first_at ''%%/hidden%%'' text (p + 10) e \<and> q + 10 \<le> e
          \<longrightarrow> (\<exists>r1 r2. region_start r1 = int p \<and> region_start r2 = int q
                  \<and> int e + 11 \<le> region_end r1 \<and> region_end r2 = region_end r1
                  \<and> region_start r2 < region_end r1
                  \<and> find_hidden_regions text li [] =
                      r1 # r2 # find_hidden_regions text (q + 10) [])"
  proof (intro allI impI)
    fix p q e
    assume a: "first_at ''%%hidden%%'' text li p \<and> first_at ''%%hidden%%'' text (p + 10) q
              \<and> first_at ''%%/hidden%%'' text (p + 10) e \<and> q + 10 \<le> e"
    then have "find_hidden_regions text li [] =
           \<lparr>region_start = int p, region_end = int e + 12\<rparr>
           # \<lparr>region_start = int q, region_end = int e + 12\<rparr>
           # find_hidden_regions text (q + 10) []"
      by (intro scan_nested_starts) simp_all
    with a show "\<exists>r1 r2. region_start r1 = int p \<and> region_start r2 = int q
                  \<and> int e + 11 \<le> region_end r1 \<and> region_end r2 = region_end r1
                  \<and> region_start r2 < region_end r1
                  \<and> find_hidden_regions text li [] =
                      r1 # r2 # find_hidden_regions text (q + 10) []"
      by (intro exI [of _ "\<lparr>region_start = int p, region_end = int e + 12\<rparr>"]
          exI [of _ "\<lparr>region_start = int q, region_end = int e + 12\<rparr>"]) simp
  qed
qed

theorem hidden_regions_scan_witness:
  "int 22 \<notin> region_start ` set (find_hidden_regions ''%%hidden%%a%%/hidden%%%%hidden%%c'' 0 [])
   \<and> (\<exists>r1 r2. region_start r1 = 0 \<and> region_start r2 = 11
          \<and> region_end r2 = region_end r1 \<and> region_start r2 < region_end r1
          \<and> find_hidden_regions ''%%hidden%%a%%hidden%%b%%/hidden%%cdefgh'' 0 [] =
               r1 # r2 # find_hidden_regions ''%%hidden%%a%%hidden%%b%%/hidden%%cdefgh'' 21 [])"
proof
  have "\<not> occurs_at ''%%/hidden%%'' ''%%hidden%%a%%/hidden%%%%hidden%%c'' e" if "22 + 10 \<le> e" for e
  proof
    assume "occurs_at ''%%/hidden%%'' ''%%hidden%%a%%/hidden%%%%hidden%%c'' e"
    from occurs_at_bound [OF this] that show False by simp
  qed
  with hidden_regions_scan [of "''%%hidden%%a%%/hidden%%%%hidden%%c''" 0]
  show "int 22 \<notin> region_start `
      set (find_hidden_regions ''%%hidden%%a%%/hidden%%%%hidden%%c'' 0 [])"
    by blast
next
  let ?T = "''%%hidden%%a%%hidden%%b%%/hidden%%cdefgh''"
  have 1: "first_at ''%%hidden%%'' ?T 0 0" unfolding first_at_upt by code_simp
  have 2: "first_at ''%%hidden%%'' ?T (0 + 10) 11" unfolding first_at_upt by code_simp
  have 3: "first_at ''%%/hidden%%'' ?T (0 + 10) 22" unfolding first_at_upt by code_simp
  have 4: "(11::nat) + 10 \<le> 22" by simp
  from hidden_regions_scan [of ?T 0] 1 2 3 4
  have "\<exists>r1 r2. region_start r1 = int 0 \<and> region_start r2 = int 11
                  \<and> int 22 + 11 \<le> region_end r1 \<and> region_end r2 = region_end r1
                  \<and> region_start r2 < region_end r1
                  \<and> find_hidden_regions ?T 0 [] =
                      r1 # r2 # find_hidden_regions ?T (11 + 10) []"
    by blast
  then show "\<exists>r1 r2. region_start r1 = 0 \<and> region_start r2 = 11
          \<and> region_end r2 = region_end r1 \<and> region_start r2 < region_end r1
          \<and> find_hidden_regions ?T 0 [] = r1 # r2 # find_hidden_regions ?T 21 []"
    by (elim exE) (auto intro!: exI)
qed

section \<open>References that are skipped\<close>

text \<open>
  Claim C7. A reference whose path resolves to no file, or resolves to a file that is not
  a markdown file while \<^verbatim>\<open>convertFileLinks\<close> is off or the adapter has no
  \<^verbatim>\<open>getFullPath\<close>, leaves text and position offset as they are, raises no error, and
  the loop goes on with the references behind it from the same state.
\<close>

theorem skipped_reference:
  assumes "parseLinktext lib (link target) = (p, sp)"
    and "case getFirstLinkpathDest app p (path file) of
           None \<Rightarrow> True
         | Some linkedFile \<Rightarrow>
             extension linkedFile \<noteq> ''md''
             \<and> (\<not> convertFileLinks settings \<or> getFullPath app = None)"
  shows "process_target recurse lib app file settings hiddenRegions newAncestors target state
           = Some (Inr state)
       \<and> process_targets recurse lib app file settings hiddenRegions newAncestors
           (target # targets) state
         = process_targets recurse lib app file settings hiddenRegions newAncestors
             targets state"
proof -
  have "process_target recurse lib app file settings hiddenRegions newAncestors target state
           = Some (Inr state)"
  proof (cases "getFirstLinkpathDest app p (path file)")
    case None
    with assms(1) show ?thesis by (rule process_target_unresolved)
  next
    case (Some linkedFile)
    with assms(2) have "extension linkedFile \<noteq> ''md''"
      "\<not> convertFileLinks settings \<or> getFullPath app = None" by simp_all
    with assms(1) Some show ?thesis by (rule process_target_not_md_skip)
  qed
  then show ?thesis by simp
qed

theorem skipped_reference_witness:
  "process_target (\<lambda>f sp anc. None) plain_lib
     (note_vault ''See [[Nope]] and ![[pic.png]].'' []) host_md settings_all [] {host_md}
     (ref ''Nope'' None 4 12) (''See [[Nope]] and ![[pic.png]].'', 0)
     = Some (Inr (''See [[Nope]] and ![[pic.png]].'', 0))
   \<and> process_target (\<lambda>f sp anc. None) plain_lib
     (note_vault ''See [[Nope]] and ![[pic.png]].'' []) host_md settings_all [] {host_md}
     (ref ''pic.png'' None 17 29) (''See [[Nope]] and ![[pic.png]].'', 0)
     = Some (Inr (''See [[Nope]] and ![[pic.png]].'', 0))"
proof -
  have 1: "parseLinktext plain_lib (link (ref ''Nope'' None 4 12)) = (''Nope'', '''')"
    by (simp add: plain_lib_def split_linktext_def ref_def)
  have 2: "parseLinktext plain_lib (link (ref ''pic.png'' None 17 29)) = (''pic.png'', '''')"
    by (simp add: plain_lib_def split_linktext_def ref_def)
  have 3: "case getFirstLinkpathDest (note_vault ''See [[Nope]] and ![[pic.png]].'' [])
              ''Nope'' (path host_md) of
           None \<Rightarrow> True
         | Some linkedFile \<Rightarrow>
             extension linkedFile \<noteq> ''md''
             \<and> (\<not> convertFileLinks settings_all
                 \<or> getFullPath (note_vault ''See [[Nope]] and ![[pic.png]].'' []) = None)"
    by (simp add: note_vault_def)
  have 4: "case getFirstLinkpathDest (note_vault ''See [[Nope]] and ![[pic.png]].'' [])
              ''pic.png'' (path host_md) of
           None \<Rightarrow> True
         | Some linkedFile \<Rightarrow>
             extension linkedFile \<noteq> ''md''
             \<and> (\<not> convertFileLinks settings_all
                 \<or> getFullPath (note_vault ''See [[Nope]] and ![[pic.png]].'' []) = None)"
    by (simp add: note_vault_def pic_png_def)
  from skipped_reference [OF 1 3] skipped_reference [OF 2 4] show ?thesis by blast
qed

section \<open>References replaced by their text\<close>

text \<open>
  Claim C4 does not hold as the specification words it. It has a reference to a markdown
  file that is already an ancestor, or that sits inline, replaced by its display text when
  present and otherwise by the parsed path. Line 152 is \<^verbatim>\<open>target.displayText || path\<close>: a display text that is present but
  empty is falsy, and the path is taken. The run below is on
  \<^verbatim>\<open>See [](Note) here.\<close>, whose link has the empty display text.
\<close>

theorem empty_display_text_example:
  "displayText (ref ''Note'' (Some '''') 4 12) = Some ''''
   \<and> bake 1 plain_lib (note_vault ''See [](Note) here.'' [ref ''Note'' (Some '''') 4 12])
        host_md None {} settings_all = Some (Inr ''See Note here.'')
   \<and> bake 1 plain_lib (note_vault ''See [](Note) here.'' [ref ''Note'' (Some '''') 4 12])
        host_md None {} settings_all \<noteq> Some (Inr (''See '' @ '''' @ '' here.''))"
proof -
  have "bake 1 plain_lib (note_vault ''See [](Note) here.'' [ref ''Note'' (Some '''') 4 12])
        host_md None {} settings_all = Some (Inr ''See Note here.'')"
    by code_simp
  then show ?thesis by (simp add: ref_def)
qed

text \<open>
  Claim C4, as the code has it. For a reference that reaches the resolver (with
  \<^verbatim>\<open>bakeHidden\<close> off, one that does not lie within a hidden region) and resolves to a
  markdown file: if that file is in the derived ancestor set or the shape is inline, the
  span from the adjusted start to the adjusted end, moved by the position offset, is
  replaced by the display text when that is present and not empty, and by the parsed path
  otherwise; the position offset grows by the length of the replacement less the length
  of the span. The result is the same whatever the recursive call would return: it is not
  made.
\<close>

theorem inline_or_ancestor_replaced:
  assumes "bakeHidden settings \<or> \<not> within_hidden hiddenRegions target"
    and "adjusted settings hiddenRegions target = (adjustedStart, adjustedEnd)"
    and "parseLinktext lib (link target) = (p, sp)"
    and "getFirstLinkpathDest app p (path file) = Some linkedFile"
    and "extension linkedFile = ''md''"
    and "linkedFile \<in> newAncestors
         \<or> isInline settings (substring text 0 (adjustedStart + posOffset))
                               (substring_from text (adjustedEnd + posOffset))"
    and "replacement = (case displayText target of
                          None \<Rightarrow> p
                        | Some d \<Rightarrow> if d \<noteq> [] then d else p)"
  shows "process_target recurse lib app file settings hiddenRegions newAncestors target
           (text, posOffset)
         = Some (Inr (substring text 0 (adjustedStart + posOffset) @ replacement
                        @ substring_from text (adjustedEnd + posOffset),
                      posOffset + (int (length replacement) - (adjustedEnd - adjustedStart))))"
proof -
  have "replacement = text_of_target target p"
    using assms(7) by (simp add: text_of_target_def split: option.splits)
  then show ?thesis
    using process_target_text [OF assms(1-6)] by simp
qed

theorem inline_or_ancestor_replaced_witness:
  "process_target (\<lambda>f sp anc. None) plain_lib
     (note_vault ''See [[Note|it]] here.'' []) host_md settings_all [] {host_md}
     (ref ''Note'' (Some ''it'') 4 15) (''See [[Note|it]] here.'', 0)
     = Some (Inr (''See it here.'', - 9))"
proof -
  have "process_target (\<lambda>f sp anc. None) plain_lib
     (note_vault ''See [[Note|it]] here.'' []) host_md settings_all [] {host_md}
     (ref ''Note'' (Some ''it'') 4 15) (''See [[Note|it]] here.'', 0)
     = Some (Inr (substring ''See [[Note|it]] here.'' 0 (4 + 0) @ ''it''
                        @ substring_from ''See [[Note|it]] here.'' (15 + 0),
                      0 + (int (length ''it'') - (15 - 4))))"
  proof (rule inline_or_ancestor_replaced [where p = "''Note''" and sp = "''''"
        and linkedFile = note_md])
    show "bakeHidden settings_all \<or> \<not> within_hidden [] (ref ''Note'' (Some ''it'') 4 15)"
      by (simp add: settings_all_def)
    show "adjusted settings_all [] (ref ''Note'' (Some ''it'') 4 15) = (4, 15)"
      by (simp add: adjusted_def settings_all_def ref_def)
    show "parseLinktext plain_lib (link (ref ''Note'' (Some ''it'') 4 15)) = (''Note'', '''')"
      by (simp add: plain_lib_def split_linktext_def ref_def)
    show "getFirstLinkpathDest (note_vault ''See [[Note|it]] here.'' []) ''Note'' (path host_md)
          = Some note_md"
      by (simp add: note_vault_def)
    show "extension note_md = ''md''" by (simp add: note_md_def)
    have "isInline settings_all ''See '' '' here.''" by code_simp
    then show "note_md \<in> {host_md}
        \<or> isInline settings_all (substring ''See [[Note|it]] here.'' 0 (4 + 0))
            (substring_from ''See [[Note|it]] here.'' (15 + 0))"
      by (simp add: substring_def substring_from_def clamp_index_def)
    show "''it'' = (case displayText (ref ''Note'' (Some ''it'') 4 15) of
                          None \<Rightarrow> ''Note''
                        | Some d \<Rightarrow> if d \<noteq> [] then d else ''Note'')"
      by (simp add: ref_def)
  qed
  then show ?thesis by (simp add: substring_def substring_from_def clamp_index_def)
qed

text \<open>
  Claim C10. In that case the replacement is the path that \<^verbatim>\<open>parseLinktext\<close> returned
  whenever the display text is absent or the empty string, and the display text only
  when it is a string that is not empty.
\<close>

theorem replacement_text_choice:
  assumes "bakeHidden settings \<or> \<not> within_hidden hiddenRegions target"
    and "adjusted settings hiddenRegions target = (adjustedStart, adjustedEnd)"
    and "parseLinktext lib (link target) = (p, sp)"
    and "getFirstLinkpathDest app p (path file) = Some linkedFile"
    and "extension linkedFile = ''md''"
    and "linkedFile \<in> newAncestors
         \<or> isInline settings (substring text 0 (adjustedStart + posOffset))
                               (substring_from text (adjustedEnd + posOffset))"
  shows "(displayText target = None \<or> displayText target = Some []
            \<longrightarrow> process_target recurse lib app file settings hiddenRegions newAncestors target
                  (text, posOffset)
                = Some (Inr (replaceTarget (substring text 0 (adjustedStart + posOffset))
                        (substring_from text (adjustedEnd + posOffset))
                        (adjustedEnd - adjustedStart) posOffset p)))
       \<and> (\<forall>d. displayText target = Some d \<and> d \<noteq> []
            \<longrightarrow> process_target recurse lib app file settings hiddenRegions newAncestors target
                  (text, posOffset)
                = Some (Inr (replaceTarget (substring text 0 (adjustedStart + posOffset))
                        (substring_from text (adjustedEnd + posOffset))
                        (adjustedEnd - adjustedStart) posOffset d)))"
  using process_target_text [OF assms]
  by (auto simp: text_of_target_def replaceTarget_def)

theorem replacement_text_choice_witness:
  "process_target (\<lambda>f sp anc. None) plain_lib
     (note_vault ''See [](Note#Top) here.'' []) host_md settings_all [] {host_md}
     (ref ''Note#Top'' (Some '''') 4 16) (''See [](Note#Top) here.'', 0)
     = Some (Inr (''See Note here.'', - 8))"
proof -
  have 1: "bakeHidden settings_all \<or> \<not> within_hidden [] (ref ''Note#Top'' (Some '''') 4 16)"
    by (simp add: settings_all_def)
  have 2: "adjusted settings_all [] (ref ''Note#Top'' (Some '''') 4 16) = (4, 16)"
    by (simp add: adjusted_def settings_all_def ref_def)
  have 3: "parseLinktext plain_lib (link (ref ''Note#Top'' (Some '''') 4 16)) = (''Note'', ''#Top'')"
    by (simp add: plain_lib_def split_linktext_def ref_def)
  have 4: "getFirstLinkpathDest (note_vault ''See [](Note#Top) here.'' []) ''Note'' (path host_md)
          = Some note_md"
    by (simp add: note_vault_def)
  have 5: "extension note_md = ''md''" by (simp add: note_md_def)
  have "isInline settings_all ''See '' '' here.''" by code_simp
  then have 6: "note_md \<in> {host_md}
        \<or> isInline settings_all (substring ''See [](Note#Top) here.'' 0 (4 + 0))
            (substring_from ''See [](Note#Top) here.'' (16 + 0))"
    by (simp add: substring_def substring_from_def clamp_index_def)
  have 7: "displayText (ref ''Note#Top'' (Some '''') 4 16) = Some []" by (simp add: ref_def)
  from replacement_text_choice [OF 1 2 3 4 5 6, of "\<lambda>f sp anc. None"] 7
  have "process_target (\<lambda>f sp anc. None) plain_lib
     (note_vault ''See [](Note#Top) here.'' []) host_md settings_all [] {host_md}
     (ref ''Note#Top'' (Some '''') 4 16) (''See [](Note#Top) here.'', 0)
     = Some (Inr (replaceTarget (substring ''See [](Note#Top) here.'' 0 (4 + 0))
                        (substring_from ''See [](Note#Top) here.'' (16 + 0))
                        (16 - 4) 0 ''Note''))"
    by blast
  then show ?thesis
    by (simp add: replaceTarget_def substring_def substring_from_def clamp_index_def)
qed

section \<open>The shape of a reference, in the words of the specification\<close>

text \<open>
  Claim C5. A reference is classified inline exactly when it is not the case that the
  text before it ends at a line start with only spaces or, with \<^verbatim>\<open>bakeInList\<close> on, is a
  list-item start (leading whitespace, which is spaces and tabs, then a bullet or a
  numbered marker, then at least one space), or else when the text after it fails the
  end-of-line check (only spaces up to a newline, a carriage return and newline, or the
  end of the text).
\<close>

theorem isInline_shape:
  "isInline settings beforeText afterText \<longleftrightarrow>
     \<not> (ends_at_line_start beforeText \<or> (bakeInList settings \<and> list_item_start beforeText))
     \<or> \<not> at_line_end afterText"
proof -
  have "listMatch_of settings beforeText \<noteq> None
        \<longleftrightarrow> bakeInList settings \<and> list_item_start beforeText"
    using listLineStartRE_match_iff [of beforeText] by (simp add: listMatch_of_def)
  then show ?thesis
    unfolding isInline_def lineStartRE_test lineEndRE_test by blast
qed

theorem isInline_shape_witness:
  "\<not> isInline settings_all ''- '' '''' \<and> at_line_end ''''
   \<and> isInline settings_all ''See '' '' here.''"
proof -
  have 1: "\<not> isInline settings_all ''- '' ''''" by code_simp
  have 2: "isInline settings_all ''See '' '' here.''" by code_simp
  from 1 isInline_shape [of settings_all "''- ''" "''''"] have "at_line_end ''''" by blast
  with 1 2 show ?thesis by simp
qed

section \<open>Termination\<close>

text \<open>
  Claim C6. The body of \<^verbatim>\<open>bake\<close> consults the recursive call only for a file outside the
  derived ancestor set, and hands it that set: two recursive calls that agree there give
  the same result. The derived set holds the current file, so along a chain of calls it
  grows by one file per call. Hence, when the files that link texts resolve to lie in a
  finite set \<open>V\<close>, a nesting depth of one more than the number of files of \<open>V\<close> outside the
  derived ancestor set is enough: with that much fuel or more, \<^verbatim>\<open>bake\<close> returns, and
  returns the same result (a text, or the error of a read that failed).
\<close>

theorem bake_terminates:
  assumes "finite V"
    and "\<forall>p q f. getFirstLinkpathDest app p q = Some f \<longrightarrow> f \<in> V"
  shows "(\<exists>r. \<forall>n. card (V - insert file ancestors) < n
                \<longrightarrow> bake n lib app file subpath ancestors settings = Some r)
       \<and> ((\<forall>f sp. f \<notin> insert file ancestors
              \<longrightarrow> r1 f sp (insert file ancestors) = r2 f sp (insert file ancestors))
            \<longrightarrow> bake_body r1 lib app file subpath ancestors settings
                = bake_body r2 lib app file subpath ancestors settings)"
proof (intro conjI impI)
  let ?b = "Suc (card (V - insert file ancestors))"
  have V: "\<And>p q f. getFirstLinkpathDest app p q = Some f \<Longrightarrow> f \<in> V"
    using assms(2) by blast
  have "bake ?b lib app file subpath ancestors settings \<noteq> None
      \<and> bake ?b lib app file subpath ancestors settings
          = bake ?b lib app file subpath ancestors settings"
    by (rule bake_enough_fuel [OF assms(1) V]) simp_all
  then obtain r where r: "bake ?b lib app file subpath ancestors settings = Some r"
    by blast
  have "bake n lib app file subpath ancestors settings = Some r"
    if "card (V - insert file ancestors) < n" for n
  proof -
    from that have "?b \<le> n" by simp
    have "bake ?b lib app file subpath ancestors settings \<noteq> None
      \<and> bake n lib app file subpath ancestors settings
          = bake ?b lib app file subpath ancestors settings"
      by (rule bake_enough_fuel [OF assms(1) V]) (use \<open>?b \<le> n\<close> in simp_all)
    with r show ?thesis by simp
  qed
  then show "\<exists>r. \<forall>n. card (V - insert file ancestors) < n
                \<longrightarrow> bake n lib app file subpath ancestors settings = Some r"
    by blast
next
  assume "\<forall>f sp. f \<notin> insert file ancestors
              \<longrightarrow> r1 f sp (insert file ancestors) = r2 f sp (insert file ancestors)"
  then show "bake_body r1 lib app file subpath ancestors settings
                = bake_body r2 lib app file subpath ancestors settings"
    by (intro bake_body_cong) blast
qed

text \<open>The two notes that embed each other: baking \<^verbatim>\<open>X.md\<close> takes the text of \<^verbatim>\<open>Y.md\<close> in,
  and in it the embed of \<^verbatim>\<open>X.md\<close> becomes its display text.\<close>

theorem bake_terminates_witness:
  "bake 2 plain_lib cyclic_vault note_x None {} settings_all
     = Some (Inr (''y then'' @ [LF] @ ''X''))
   \<and> bake 9 plain_lib cyclic_vault note_x None {} settings_all
     = Some (Inr (''y then'' @ [LF] @ ''X''))"
proof -
  have fin: "finite {note_x, note_y}" by simp
  have res: "\<forall>p q f. getFirstLinkpathDest cyclic_vault p q = Some f \<longrightarrow> f \<in> {note_x, note_y}"
    by (simp add: cyclic_vault_def)
  have card: "card ({note_x, note_y} - insert note_x {}) = 1"
    by (simp add: note_x_def note_y_def)
  from bake_terminates [OF fin res, of note_x "{}" plain_lib None settings_all]
  obtain r where r: "\<forall>n. card ({note_x, note_y} - insert note_x {}) < n
      \<longrightarrow> bake n plain_lib cyclic_vault note_x None {} settings_all = Some r"
    by blast
  have 2: "bake 2 plain_lib cyclic_vault note_x None {} settings_all
     = Some (Inr (''y then'' @ [LF] @ ''X''))"
    by code_simp
  from r card have "bake 2 plain_lib cyclic_vault note_x None {} settings_all = Some r"
    "bake 9 plain_lib cyclic_vault note_x None {} settings_all = Some r"
    by simp_all
  with 2 show ?thesis by simp
qed

section \<open>A reference at the start of a list item\<close>

lemma note_text_reindented:
  "applyIndent_spec (stripFirstBullet_spec (''Line1'' @ [LF] @ ''Line2'')) ''''
     = ''Line1'' @ [LF] @ ''Line2''"
  "applyIndent_spec (stripFirstBullet_spec (''Line1'' @ [LF] @ ''Line2'')) ''  ''
     = ''Line1'' @ [LF] @ ''  Line2''"
  by code_simp+

text \<open>
  Claim C9 does not hold as the specification words it. It expects
  \<^verbatim>\<open>"- Line1\n  Line2"\<close> for the list item \<^verbatim>\<open>"- [[Note]]"\<close>, the lines after the first
  indented by a string as long as the list prefix. The indent
  handed to \<^verbatim>\<open>applyIndent\<close> is \<^verbatim>\<open>listMatch[1]\<close>, and group 1 of \<open>listLineStartRE\<close> is
  \<^verbatim>\<open>([ \t]*)\<close>: the spaces and tabs before the marker, without the marker and the spaces
  behind it. For \<^verbatim>\<open>"- "\<close> that group is empty, and the second line is not indented.
\<close>

theorem list_item_example:
  "bake 2 spec_lib (note_vault ''- [[Note]]'' [ref ''Note'' None 2 10]) host_md None {}
       settings_all
     = Some (Inr (''- Line1'' @ [LF] @ ''Line2''))
   \<and> bake 2 spec_lib (note_vault ''- [[Note]]'' [ref ''Note'' None 2 10]) host_md None {}
       settings_all
     \<noteq> Some (Inr (''- Line1'' @ [LF] @ ''  Line2''))
   \<and> (case listMatch_of settings_all ''- '' of
         None \<Rightarrow> None
       | Some m \<Rightarrow> Some (group_text ''- '' m 1)) = Some ''''"
proof -
  have 1: "bake 2 spec_lib (note_vault ''- [[Note]]'' [ref ''Note'' None 2 10]) host_md None {}
       settings_all
     = Some (Inr (''- Line1'' @ [LF] @ ''Line2''))"
    by code_simp
  have 2: "(case listMatch_of settings_all ''- '' of
         None \<Rightarrow> None
       | Some m \<Rightarrow> Some (group_text ''- '' m 1)) = Some ''''"
    by code_simp
  from 1 2 show ?thesis by simp
qed

text \<open>
  Claim C9, as the code has it. For a reference to a markdown file that is neither an
  ancestor nor inline, where \<open>listLineStartRE\<close> matched the text before it: the span is
  replaced by the baked and sanitized content of the target, passed through
  \<^verbatim>\<open>stripFirstBullet\<close> and then through \<^verbatim>\<open>applyIndent\<close> with the captured string; and the
  captured string is the indent of spaces and tabs that stands between the line start and
  the list marker, so it is shorter than the list prefix by the marker and the spaces
  behind it. The list item \<^verbatim>\<open>"  - [[Note]]"\<close> becomes \<^verbatim>\<open>"  - Line1\n  Line2"\<close>.
\<close>

theorem list_item_reindent:
  assumes "bakeHidden settings \<or> \<not> within_hidden hiddenRegions target"
    and "adjusted settings hiddenRegions target = (adjustedStart, adjustedEnd)"
    and "parseLinktext lib (link target) = (p, sp)"
    and "getFirstLinkpathDest app p (path file) = Some linkedFile"
    and "extension linkedFile = ''md''"
    and "linkedFile \<notin> newAncestors"
    and "beforeText = substring text 0 (adjustedStart + posOffset)"
    and "afterText = substring_from text (adjustedEnd + posOffset)"
    and "\<not> isInline settings beforeText afterText"
    and "listMatch_of settings beforeText = Some m"
    and "recurse linkedFile (Some sp) newAncestors = Some (Inr baked)"
    and "replacement = applyIndent lib (stripFirstBullet lib (sanitizeBakedContent lib baked))
                         (group_text beforeText m 1)"
  shows "process_target recurse lib app file settings hiddenRegions newAncestors target
           (text, posOffset)
         = Some (Inr (beforeText @ replacement @ afterText,
                      posOffset + (int (length replacement) - (adjustedEnd - adjustedStart))))
       \<and> (\<exists>pre marker n. list_item_parts beforeText pre (group_text beforeText m 1) marker n)"
proof
  show "process_target recurse lib app file settings hiddenRegions newAncestors target
           (text, posOffset)
         = Some (Inr (beforeText @ replacement @ afterText,
                      posOffset + (int (length replacement) - (adjustedEnd - adjustedStart))))"
    using assms by (auto simp add: process_target_def Let_def replaceTarget_def)
  from assms(10) have "string_match listLineStartRE beforeText = Some m"
    by (simp add: listMatch_of_def split: if_splits)
  then show "\<exists>pre marker n. list_item_parts beforeText pre (group_text beforeText m 1) marker n"
    by (rule listLineStartRE_group)
qed

theorem list_item_reindent_witness:
  "process_target (\<lambda>f sp anc. Some (Inr (''Line1'' @ [LF] @ ''Line2''))) spec_lib
     (note_vault ''  - [[Note]]'' []) host_md settings_all [] {host_md}
     (ref ''Note'' None 4 12) (''  - [[Note]]'', 0)
   = Some (Inr (''  - Line1'' @ [LF] @ ''  Line2'', 5))"
proof -
  have g: "(case listMatch_of settings_all ''  - '' of
         None \<Rightarrow> None
       | Some m \<Rightarrow> Some (group_text ''  - '' m 1)) = Some ''  ''"
    by code_simp
  then obtain m where m: "listMatch_of settings_all ''  - '' = Some m"
    and gm: "group_text ''  - '' m 1 = ''  ''"
    by (auto split: option.splits)
  have "process_target (\<lambda>f sp anc. Some (Inr (''Line1'' @ [LF] @ ''Line2''))) spec_lib
     (note_vault ''  - [[Note]]'' []) host_md settings_all [] {host_md}
     (ref ''Note'' None 4 12) (''  - [[Note]]'', 0)
   = Some (Inr (''  - '' @ (''Line1'' @ [LF] @ ''  Line2'') @ '''',
                0 + (int (length (''Line1'' @ [LF] @ ''  Line2'')) - (12 - 4))))
    \<and> (\<exists>pre marker n. list_item_parts ''  - '' pre (group_text ''  - '' m 1) marker n)"
  proof (rule list_item_reindent [where p = "''Note''" and sp = "''''" and linkedFile = note_md
        and m = m and baked = "''Line1'' @ [LF] @ ''Line2''"])
    show "bakeHidden settings_all \<or> \<not> within_hidden [] (ref ''Note'' None 4 12)"
      by (simp add: settings_all_def)
    show "adjusted settings_all [] (ref ''Note'' None 4 12) = (4, 12)"
      by (simp add: adjusted_def settings_all_def ref_def)
    show "parseLinktext spec_lib (link (ref ''Note'' None 4 12)) = (''Note'', '''')"
      by (simp add: spec_lib_def plain_lib_def split_linktext_def ref_def)
    show "getFirstLinkpathDest (note_vault ''  - [[Note]]'' []) ''Note'' (path host_md)
          = Some note_md"
      by (simp add: note_vault_def)
    show "extension note_md = ''md''" by (simp add: note_md_def)
    show "note_md \<notin> {host_md}" by (simp add: note_md_def host_md_def)
    show "''  - '' = substring ''  - [[Note]]'' 0 (4 + 0)"
      by (simp add: substring_def clamp_index_def)
    show "'''' = substring_from ''  - [[Note]]'' (12 + 0)"
      by (simp add: substring_def substring_from_def clamp_index_def)
    show "\<not> isInline settings_all ''  - '' ''''" by code_simp
    show "listMatch_of settings_all ''  - '' = Some m" by (rule m)
    show "(\<lambda>f sp anc. Some (Inr (''Line1'' @ [LF] @ ''Line2''))) note_md (Some '''') {host_md}
          = Some (Inr (''Line1'' @ [LF] @ ''Line2''))"
      by simp
    show "''Line1'' @ [LF] @ ''  Line2'' =
        applyIndent spec_lib (stripFirstBullet spec_lib
          (sanitizeBakedContent spec_lib (''Line1'' @ [LF] @ ''Line2'')))
          (group_text ''  - '' m 1)"
      unfolding gm using note_text_reindented(2) by (simp add: spec_lib_def plain_lib_def)
  qed
  then show ?thesis by simp
qed

end
